theory Spec2Isabelle
  imports Main "HOL-Library.Sublist" "HOL-Library.AList"
begin

section \<open>Platform values and containers used by \<^verbatim>\<open>functions.js\<close>\<close>

text \<open>
  The module \<^verbatim>\<open>assets/js/instant-results/functions.js\<close> is written against four
  browser containers: \<^verbatim>\<open>FormData\<close>, \<^verbatim>\<open>URLSearchParams\<close>, \<^verbatim>\<open>URL\<close> and plain objects.
  Each is modelled by the list of entries the platform keeps for it, in the platform's
  order, with the operations the module calls written out as the standards define them.
  Strings are \<^typ>\<open>string\<close>.
\<close>

subsection \<open>JavaScript values that the module tests for\<close>

text \<open>
  \<^verbatim>\<open>urlParams.get(name)\<close> yields a string or \<^verbatim>\<open>null\<close>; the module then tests the
  result with \<^verbatim>\<open>typeof param !== 'undefined'\<close>. The three kinds of value that test can
  tell apart, and that the sanitizer receives, are kept distinct.
\<close>

datatype js_param = JsUndefined | JsNull | JsString string

text \<open>
  Reading a property \<^verbatim>\<open>args[arg]\<close> yields \<^verbatim>\<open>undefined\<close> (the key is missing, or bound
  to \<^verbatim>\<open>undefined\<close>) or some other value; \<^verbatim>\<open>null\<close> is one of the other values.
\<close>

datatype 'v js_prop = Undefined | Defined 'v

subsection \<open>Plain objects\<close>

text \<open>
  An object is the list of its own properties. \<^verbatim>\<open>Object.entries(schema)\<close> is that list;
  \<^verbatim>\<open>obj[key]\<close> reads a property; \<^verbatim>\<open>obj[key] = v\<close> overwrites the property in place
  or appends it (\<^const>\<open>AList.update\<close>). Keys are ordinary property names (none is
  inherited from \<^verbatim>\<open>Object.prototype\<close>).
\<close>

type_synonym 'v js_object = "(string \<times> 'v) list"

definition obj_get :: "'v js_prop js_object \<Rightarrow> string \<Rightarrow> 'v js_prop" where
  "obj_get obj key = (case map_of obj key of None \<Rightarrow> Undefined | Some v \<Rightarrow> v)"

definition well_formed_object :: "'v js_object \<Rightarrow> bool" where
  "well_formed_object obj = distinct (map fst obj)"

subsection \<open>FormData\<close>

type_synonym 'v form_data = "(string \<times> 'v) list"

definition fd_has :: "'v form_data \<Rightarrow> string \<Rightarrow> bool" where
  "fd_has data name = (name \<in> set (map fst data))"

definition fd_getAll :: "'v form_data \<Rightarrow> string \<Rightarrow> 'v list" where
  "fd_getAll data name = map snd (filter (\<lambda>e. fst e = name) data)"

text \<open>\<^verbatim>\<open>xs.slice(-1)\<close>: the elements from index \<^verbatim>\<open>max(length - 1, 0)\<close> to the end.\<close>

definition slice_minus_1 :: "'a list \<Rightarrow> 'a list" where
  "slice_minus_1 xs = drop (length xs - 1) xs"

subsection \<open>URLSearchParams\<close>

text \<open>
  The URL standard keeps a list of name-value pairs. \<^verbatim>\<open>get\<close> returns the value of the
  first pair with the name, or \<^verbatim>\<open>null\<close>; \<^verbatim>\<open>delete\<close> removes every pair with the name;
  \<^verbatim>\<open>set\<close> overwrites the first pair with the name and removes the others, or appends a
  new pair when there is none; \<^verbatim>\<open>keys\<close> lists the names of all pairs, duplicates
  included; \<^verbatim>\<open>forEach\<close> visits the pairs in list order.
\<close>

type_synonym url_search_params = "(string \<times> string) list"

definition usp_get :: "url_search_params \<Rightarrow> string \<Rightarrow> js_param" where
  "usp_get ps name = (case map_of ps name of None \<Rightarrow> JsNull | Some v \<Rightarrow> JsString v)"

definition usp_has :: "url_search_params \<Rightarrow> string \<Rightarrow> bool" where
  "usp_has ps name = (name \<in> set (map fst ps))"

definition usp_getAll :: "url_search_params \<Rightarrow> string \<Rightarrow> string list" where
  "usp_getAll ps name = map snd (filter (\<lambda>e. fst e = name) ps)"

definition usp_keys :: "url_search_params \<Rightarrow> string list" where
  "usp_keys ps = map fst ps"

definition usp_delete :: "url_search_params \<Rightarrow> string \<Rightarrow> url_search_params" where
  "usp_delete ps name = filter (\<lambda>e. fst e \<noteq> name) ps"

fun usp_set :: "url_search_params \<Rightarrow> string \<Rightarrow> string \<Rightarrow> url_search_params" where
  "usp_set [] name val = [(name, val)]"
| "usp_set (e # ps) name val =
     (if fst e = name then (name, val) # usp_delete ps name
      else e # usp_set ps name val)"

subsection \<open>URL\<close>

text \<open>
  \<^verbatim>\<open>new URL(window.location.href)\<close> parses the location into a URL record, and
  \<^verbatim>\<open>url.toString()\<close> serializes the record; both belong to the platform, and parsing a
  serialized record gives the record back. A URL string is therefore represented by its
  record: the query as the pair list behind \<^verbatim>\<open>url.searchParams\<close>, everything before the
  query (scheme, authority, path) and the fragment as opaque strings. Two records with
  different pair lists serialize to different strings.
\<close>

record url =
  origin_path :: string
  searchParams :: url_search_params
  hash :: string

text \<open>\<^verbatim>\<open>key.startsWith(paramPrefix)\<close>\<close>

definition startsWith :: "string \<Rightarrow> string \<Rightarrow> bool" where
  "startsWith key paramPrefix = prefix paramPrefix key"

section \<open>The functions of the module\<close>

subsection \<open>formatPrice\<close>

text \<open>
  \<^verbatim>\<open>new Intl.NumberFormat(navigator.language, {style: 'currency',
  currencyDisplay: 'narrowSymbol', ...options}).format(number)\<close>.
  The platform formatter \<open>numberFormat\<close> is a parameter: it receives the locale tag, the
  options object and the number. The object literal lists the two defaults first and
  spreads the caller's options over them, so a caller's key replaces a default of the
  same name. An options object is the list of its own properties.
\<close>

definition spread :: "'v js_object \<Rightarrow> 'v js_object \<Rightarrow> 'v js_object" where
  "spread obj props = foldl (\<lambda>acc (k, v). AList.update k v acc) obj props"

definition formatPrice ::
  "(string \<Rightarrow> string js_object \<Rightarrow> 'n \<Rightarrow> string) \<Rightarrow> string \<Rightarrow> 'n \<Rightarrow> string js_object \<Rightarrow> string" where
  "formatPrice numberFormat navigator_language number options =
     numberFormat navigator_language
       (spread [(''style'', ''currency''), (''currencyDisplay'', ''narrowSymbol'')] options)
       number"

subsection \<open>getPostTypesFromForm\<close>

text \<open>\<^verbatim>\<open>new FormData(form)\<close> is the entry list of the form, which stands for the form.\<close>

definition getPostTypesFromForm :: "'v form_data \<Rightarrow> 'v list" where
  "getPostTypesFromForm form =
     (let data = form in
      if fd_has data ''post_type'' then slice_minus_1 (fd_getAll data ''post_type'')
      else if fd_has data ''post_type[]'' then fd_getAll data ''post_type[]''
      else [])"

subsection \<open>getUrlParamsFromArgs\<close>

text \<open>
  The sanitizers are imported from \<^verbatim>\<open>./utilities\<close> and are parameters here.
  \<open>sanitizeParam\<close> returns a string or \<^verbatim>\<open>null\<close> (\<^const>\<open>None\<close>); \<open>sanitizeArg\<close>
  returns a value or \<^verbatim>\<open>null\<close>. An omitted \<open>prefix\<close> argument (\<^const>\<open>None\<close>) takes the
  default \<^verbatim>\<open>''\<close>, an omitted \<open>useDefaults\<close> the default \<^verbatim>\<open>true\<close>.

  \<open>param_step\<close> is the callback of \<^verbatim>\<open>Object.entries(schema).forEach\<close>, acting on the
  \<^verbatim>\<open>urlParams\<close> built so far; the test \<^verbatim>\<open>typeof args[arg] !== 'undefined'\<close> is the case
  distinction on the property read.
\<close>

definition prefix_arg :: "string option \<Rightarrow> string" where
  "prefix_arg p = (case p of None \<Rightarrow> [] | Some s \<Rightarrow> s)"

definition useDefaults_arg :: "bool option \<Rightarrow> bool" where
  "useDefaults_arg u = (case u of None \<Rightarrow> True | Some b \<Rightarrow> b)"

definition param_step ::
  "('v \<Rightarrow> 'spec \<Rightarrow> string option) \<Rightarrow> 'v js_prop js_object \<Rightarrow> string \<Rightarrow>
   url_search_params \<Rightarrow> string \<times> 'spec \<Rightarrow> url_search_params" where
  "param_step sanitizeParam args pfx urlParams entry =
     (case entry of (arg, options) \<Rightarrow>
        let param = pfx @ arg;
            val = (case obj_get args arg of
                     Undefined \<Rightarrow> None
                   | Defined v \<Rightarrow> sanitizeParam v options)
        in (case val of None \<Rightarrow> urlParams | Some s \<Rightarrow> usp_set urlParams param s))"

definition getUrlParamsFromArgs ::
  "('v \<Rightarrow> 'spec \<Rightarrow> string option) \<Rightarrow> 'v js_prop js_object \<Rightarrow> 'spec js_object \<Rightarrow>
   string option \<Rightarrow> url_search_params" where
  "getUrlParamsFromArgs sanitizeParam args schema pfx =
     foldl (param_step sanitizeParam args (prefix_arg pfx)) [] schema"

subsection \<open>getArgsFromUrlParams\<close>

text \<open>
  \<open>arg_step\<close> is the callback of \<^verbatim>\<open>Object.entries(schema).reduce\<close>, started on the empty
  object. The test \<^verbatim>\<open>typeof param !== 'undefined'\<close> is kept as written.
\<close>

definition arg_step ::
  "(js_param \<Rightarrow> 'spec \<Rightarrow> bool \<Rightarrow> 'v option) \<Rightarrow> url_search_params \<Rightarrow> string \<Rightarrow> bool \<Rightarrow>
   'v js_object \<Rightarrow> string \<times> 'spec \<Rightarrow> 'v js_object" where
  "arg_step sanitizeArg urlParams pfx useDefaults args entry =
     (case entry of (arg, options) \<Rightarrow>
        let param = usp_get urlParams (pfx @ arg);
            val = (if param \<noteq> JsUndefined then sanitizeArg param options useDefaults
                   else None)
        in (case val of None \<Rightarrow> args | Some v \<Rightarrow> AList.update arg v args))"

definition getArgsFromUrlParams ::
  "(js_param \<Rightarrow> 'spec \<Rightarrow> bool \<Rightarrow> 'v option) \<Rightarrow> url_search_params \<Rightarrow> 'spec js_object \<Rightarrow>
   string option \<Rightarrow> bool option \<Rightarrow> 'v js_object" where
  "getArgsFromUrlParams sanitizeArg urlParams schema pfx useDefaults =
     foldl (arg_step sanitizeArg urlParams (prefix_arg pfx) (useDefaults_arg useDefaults))
       [] schema"

subsection \<open>getUrlWithParams\<close>

text \<open>
  \<open>location\<close> is the record of \<^verbatim>\<open>window.location.href\<close>; the result is the record that
  \<^verbatim>\<open>url.toString()\<close> serializes. \<open>params\<close> is \<^const>\<open>None\<close> when the argument is
  omitted (the test \<^verbatim>\<open>if (params)\<close> fails); a \<^verbatim>\<open>URLSearchParams\<close> object is truthy
  even when it is empty. \<open>delete_step\<close> is the body of the loop over \<^verbatim>\<open>keys\<close>, the
  array of names taken before the loop starts; \<open>set_step\<close> is the callback of
  \<^verbatim>\<open>params.forEach\<close>.
\<close>

definition delete_step :: "string \<Rightarrow> url \<Rightarrow> string \<Rightarrow> url" where
  "delete_step paramPrefix u key =
     (if startsWith key paramPrefix
      then u\<lparr>searchParams := usp_delete (searchParams u) key\<rparr>
      else u)"

definition set_step :: "url \<Rightarrow> string \<times> string \<Rightarrow> url" where
  "set_step u entry =
     (case entry of (key, val) \<Rightarrow> u\<lparr>searchParams := usp_set (searchParams u) key val\<rparr>)"

definition getUrlWithParams :: "url \<Rightarrow> string \<Rightarrow> url_search_params option \<Rightarrow> url" where
  "getUrlWithParams location paramPrefix params =
     (let u = location;
          keys = usp_keys (searchParams u);
          u1 = foldl (delete_step paramPrefix) u keys
      in (case params of None \<Rightarrow> u1 | Some ps \<Rightarrow> foldl set_step u1 ps))"

section \<open>Example collaborators\<close>

text \<open>
  The sanitizers and the schema are supplied by the caller. The examples below are inputs
  on which the theorems are instantiated: the schema record of the \<^verbatim>\<open>ArgSchema\<close> typedef,
  a pair of sanitizers for string-valued arguments that honour \<^verbatim>\<open>default\<close> and
  \<^verbatim>\<open>allowedValues\<close>, a sanitizer written with a JavaScript default parameter
  (\<^verbatim>\<open>(value = 'any') => value\<close>, which fills in \<^verbatim>\<open>'any'\<close> for \<^verbatim>\<open>undefined\<close> but not for
  \<^verbatim>\<open>null\<close>), and a formatter that reports the locale and the \<^verbatim>\<open>style\<close> option it was
  constructed with.
\<close>

record arg_schema =
  schema_type :: string
  schema_default :: "string option"
  schema_allowedValues :: "string list option"

definition example_allowed :: "arg_schema \<Rightarrow> string \<Rightarrow> bool" where
  "example_allowed options s =
     (case schema_allowedValues options of None \<Rightarrow> True | Some vs \<Rightarrow> s \<in> set vs)"

definition example_sanitizeParam :: "string \<Rightarrow> arg_schema \<Rightarrow> string option" where
  "example_sanitizeParam v options =
     (if schema_default options = Some v \<or> \<not> example_allowed options v then None else Some v)"

definition example_sanitizeArg :: "js_param \<Rightarrow> arg_schema \<Rightarrow> bool \<Rightarrow> string option" where
  "example_sanitizeArg param options useDefaults =
     (let fallback = (if useDefaults then schema_default options else None) in
      case param of
        JsString s \<Rightarrow> (if example_allowed options s then Some s else fallback)
      | JsNull \<Rightarrow> fallback
      | JsUndefined \<Rightarrow> fallback)"

definition default_parameter_sanitizeArg :: "js_param \<Rightarrow> unit \<Rightarrow> bool \<Rightarrow> string option" where
  "default_parameter_sanitizeArg param options useDefaults =
     (case param of
        JsUndefined \<Rightarrow> Some ''any''
      | JsNull \<Rightarrow> None
      | JsString s \<Rightarrow> Some s)"

definition reporting_format :: "string \<Rightarrow> string js_object \<Rightarrow> nat \<Rightarrow> string" where
  "reporting_format locale options number =
     locale @ '' '' @ (case map_of options ''style'' of None \<Rightarrow> ''-'' | Some style \<Rightarrow> style)"

definition example_schema :: "arg_schema js_object" where
  "example_schema =
     [(''search'', \<lparr>schema_type = ''string'', schema_default = Some [],
                    schema_allowedValues = None\<rparr>),
      (''orderby'', \<lparr>schema_type = ''string'', schema_default = Some ''relevance'',
                     schema_allowedValues = Some [''date'', ''price'', ''relevance'']\<rparr>),
      (''order'', \<lparr>schema_type = ''string'', schema_default = Some ''desc'',
                   schema_allowedValues = Some [''asc'', ''desc'']\<rparr>),
      (''per_page'', \<lparr>schema_type = ''string'', schema_default = Some ''6'',
                      schema_allowedValues = None\<rparr>)]"

definition example_args :: "string js_prop js_object" where
  "example_args =
     [(''order'', Defined ''asc''), (''unknown'', Defined ''x''),
      (''search'', Defined ''chairs''), (''orderby'', Undefined),
      (''per_page'', Defined ''6'')]"

definition example_location :: url where
  "example_location =
     \<lparr>origin_path = ''https://example.com/shop/'',
      searchParams = [(''page'', ''2''), (''ep-search'', ''sofa''), (''utm'', ''a''),
                      (''ep-order'', ''asc''), (''utm'', ''b'')],
      hash = ''#results''\<rparr>"

section \<open>Facts about the containers\<close>

lemma slice_minus_1_last: "xs \<noteq> [] \<Longrightarrow> slice_minus_1 xs = [last xs]"
proof -
  assume "xs \<noteq> []"
  then have "xs = butlast xs @ [last xs]" by simp
  then have "drop (length (butlast xs)) xs = [last xs]"
    by (metis append_eq_conv_conj)
  then show ?thesis by (simp add: slice_minus_1_def)
qed

lemma fd_getAll_nonempty: "fd_has data name \<Longrightarrow> fd_getAll data name \<noteq> []"
  by (induction data) (auto simp: fd_has_def fd_getAll_def)

lemma fd_getAll_filter_other:
  "name \<noteq> other \<Longrightarrow> fd_getAll (filter (\<lambda>e. fst e \<noteq> other) data) name = fd_getAll data name"
  by (induction data) (auto simp: fd_getAll_def)

lemma fd_has_filter_other:
  "name \<noteq> other \<Longrightarrow> fd_has (filter (\<lambda>e. fst e \<noteq> other) data) name = fd_has data name"
  by (induction data) (auto simp: fd_has_def)

lemma usp_delete_keys: "fst ` set (usp_delete ps name) = fst ` set ps - {name}"
  by (induction ps) (auto simp: usp_delete_def)

lemma distinct_usp_delete: "distinct (map fst ps) \<Longrightarrow> distinct (map fst (usp_delete ps name))"
  by (simp add: usp_delete_def distinct_map_filter)

lemma usp_set_keys: "fst ` set (usp_set ps name val) = insert name (fst ` set ps)"
  by (induction ps) (auto simp: usp_delete_keys)

lemma distinct_usp_set: "distinct (map fst ps) \<Longrightarrow> distinct (map fst (usp_set ps name val))"
proof (induction ps)
  case Nil
  then show ?case by simp
next
  case (Cons e ps)
  show ?case
  proof (cases "fst e = name")
    case True
    with Cons.prems show ?thesis
      by (simp add: usp_delete_keys distinct_usp_delete)
  next
    case False
    with Cons show ?thesis
      by (simp add: usp_set_keys)
  qed
qed

lemma usp_set_fresh: "name \<notin> fst ` set ps \<Longrightarrow> usp_set ps name val = ps @ [(name, val)]"
  by (induction ps) auto

lemma usp_set_append: "name \<notin> fst ` set as \<Longrightarrow> usp_set (as @ bs) name val = as @ usp_set bs name val"
  by (induction as) auto

lemma map_of_usp_delete: "map_of (usp_delete ps name) = (map_of ps)(name := None)"
  by (induction ps) (auto simp: usp_delete_def)

lemma map_of_usp_set: "map_of (usp_set ps name val) = (map_of ps)(name \<mapsto> val)"
  by (induction ps) (auto simp: map_of_usp_delete)

lemma usp_getAll_usp_delete_other: "k \<noteq> name \<Longrightarrow> usp_getAll (usp_delete ps name) k = usp_getAll ps k"
  by (induction ps) (auto simp: usp_getAll_def usp_delete_def)

lemma usp_getAll_usp_set_other: "k \<noteq> name \<Longrightarrow> usp_getAll (usp_set ps name val) k = usp_getAll ps k"
proof (induction ps)
  case Nil
  then show ?case by (simp add: usp_getAll_def)
next
  case (Cons e ps)
  show ?case
  proof (cases "fst e = name")
    case True
    with Cons.prems have "usp_getAll (usp_delete ps name) k = usp_getAll ps k"
      by (simp add: usp_getAll_usp_delete_other)
    with True Cons.prems show ?thesis by (simp add: usp_getAll_def)
  next
    case False
    with Cons show ?thesis by (simp add: usp_getAll_def)
  qed
qed

section \<open>Post types of a search form\<close>

text \<open>
  C5. When the form has a field \<^verbatim>\<open>post_type\<close>, \<^verbatim>\<open>getPostTypesFromForm\<close> returns the
  one-element list of the last submitted value of \<^verbatim>\<open>post_type\<close>, and the result is the
  same as for the form with every \<^verbatim>\<open>post_type[]\<close> entry taken out; when only
  \<^verbatim>\<open>post_type[]\<close> is present it returns all values of \<^verbatim>\<open>post_type[]\<close>, in order; when
  neither is present it returns the empty list.
\<close>

theorem getPostTypesFromForm_precedence:
  "(fd_has form ''post_type'' \<longrightarrow>
      getPostTypesFromForm form = [last (fd_getAll form ''post_type'')] \<and>
      getPostTypesFromForm form =
        getPostTypesFromForm (filter (\<lambda>e. fst e \<noteq> ''post_type[]'') form)) \<and>
   (\<not> fd_has form ''post_type'' \<and> fd_has form ''post_type[]'' \<longrightarrow>
      getPostTypesFromForm form = fd_getAll form ''post_type[]'') \<and>
   (\<not> fd_has form ''post_type'' \<and> \<not> fd_has form ''post_type[]'' \<longrightarrow>
      getPostTypesFromForm form = [])"
proof (intro conjI impI)
  assume single: "fd_has form ''post_type''"
  then have "fd_getAll form ''post_type'' \<noteq> []"
    by (rule fd_getAll_nonempty)
  then have "slice_minus_1 (fd_getAll form ''post_type'') = [last (fd_getAll form ''post_type'')]"
    by (rule slice_minus_1_last)
  with single show first: "getPostTypesFromForm form = [last (fd_getAll form ''post_type'')]"
    by (simp add: getPostTypesFromForm_def)
  let ?rest = "filter (\<lambda>e. fst e \<noteq> ''post_type[]'') form"
  have "fd_has ?rest ''post_type'' = fd_has form ''post_type''"
    by (rule fd_has_filter_other) simp
  moreover have "fd_getAll ?rest ''post_type'' = fd_getAll form ''post_type''"
    by (rule fd_getAll_filter_other) simp
  ultimately show "getPostTypesFromForm form = getPostTypesFromForm ?rest"
    using single by (simp add: getPostTypesFromForm_def)
next
  assume "\<not> fd_has form ''post_type'' \<and> fd_has form ''post_type[]''"
  then show "getPostTypesFromForm form = fd_getAll form ''post_type[]''"
    by (simp add: getPostTypesFromForm_def)
next
  assume "\<not> fd_has form ''post_type'' \<and> \<not> fd_has form ''post_type[]''"
  then show "getPostTypesFromForm form = []"
    by (simp add: getPostTypesFromForm_def)
qed

theorem getPostTypesFromForm_precedence_witness:
  "fd_has [(''post_type[]'', ''page''), (''post_type'', ''post''),
           (''post_type[]'', ''product''), (''post_type'', ''movie'')] ''post_type'' \<and>
   fd_has [(''post_type[]'', ''page''), (''post_type'', ''post''),
           (''post_type[]'', ''product''), (''post_type'', ''movie'')] ''post_type[]'' \<and>
   getPostTypesFromForm [(''post_type[]'', ''page''), (''post_type'', ''post''),
                         (''post_type[]'', ''product''), (''post_type'', ''movie'')]
     = [''movie''] \<and>
   \<not> fd_has [(''s'', ''sofa''), (''post_type[]'', ''page''), (''post_type[]'', ''product'')]
        ''post_type'' \<and>
   getPostTypesFromForm [(''s'', ''sofa''), (''post_type[]'', ''page''),
                         (''post_type[]'', ''product'')]
     = [''page'', ''product''] \<and>
   \<not> fd_has [(''s'', ''sofa'')] ''post_type[]'' \<and>
   getPostTypesFromForm [(''s'', ''sofa'')] = ([] :: string list)"
proof -
  let ?both = "[(''post_type[]'', ''page''), (''post_type'', ''post''),
                (''post_type[]'', ''product''), (''post_type'', ''movie'')]"
  let ?multi = "[(''s'', ''sofa''), (''post_type[]'', ''page''), (''post_type[]'', ''product'')]"
  let ?none = "[(''s'', ''sofa'')] :: string form_data"
  have both: "fd_has ?both ''post_type''" "fd_has ?both ''post_type[]''"
    by (simp_all add: fd_has_def)
  have multi: "\<not> fd_has ?multi ''post_type''" "fd_has ?multi ''post_type[]''"
    by (simp_all add: fd_has_def)
  have none: "\<not> fd_has ?none ''post_type''" "\<not> fd_has ?none ''post_type[]''"
    by (simp_all add: fd_has_def)
  from getPostTypesFromForm_precedence [of ?both] both
  have "getPostTypesFromForm ?both = [last (fd_getAll ?both ''post_type'')]"
    by blast
  then have r1: "getPostTypesFromForm ?both = [''movie'']"
    by (simp add: fd_getAll_def)
  from getPostTypesFromForm_precedence [of ?multi] multi
  have "getPostTypesFromForm ?multi = fd_getAll ?multi ''post_type[]''"
    by blast
  then have r2: "getPostTypesFromForm ?multi = [''page'', ''product'']"
    by (simp add: fd_getAll_def)
  from getPostTypesFromForm_precedence [of ?none] none
  have r3: "getPostTypesFromForm ?none = []"
    by blast
  from both multi none r1 r2 r3 show ?thesis by simp
qed

section \<open>Serialization: \<^verbatim>\<open>getUrlParamsFromArgs\<close>\<close>

lemma param_step_keys:
  "fst ` set (param_step sp args pfx acc (arg, options)) \<subseteq> insert (pfx @ arg) (fst ` set acc)"
  by (auto simp: param_step_def usp_set_keys split: js_prop.splits option.splits)

lemma param_step_distinct:
  "distinct (map fst acc) \<Longrightarrow> distinct (map fst (param_step sp args pfx acc entry))"
  by (cases entry) (simp add: param_step_def distinct_usp_set split: js_prop.splits option.splits)

lemma foldl_param_step_distinct:
  "distinct (map fst acc) \<Longrightarrow> distinct (map fst (foldl (param_step sp args pfx) acc schema))"
  by (induction schema arbitrary: acc) (simp_all add: param_step_distinct)

lemma foldl_param_step_keys:
  "fst ` set (foldl (param_step sp args pfx) acc schema)
     \<subseteq> fst ` set acc \<union> (\<lambda>arg. pfx @ arg) ` fst ` set schema"
proof (induction schema arbitrary: acc)
  case Nil
  then show ?case by simp
next
  case (Cons e schema)
  obtain arg options where e: "e = (arg, options)" by (cases e)
  have "fst ` set (foldl (param_step sp args pfx) (param_step sp args pfx acc e) schema)
          \<subseteq> fst ` set (param_step sp args pfx acc e) \<union> (\<lambda>arg. pfx @ arg) ` fst ` set schema"
    by (rule Cons.IH)
  moreover have "fst ` set (param_step sp args pfx acc e) \<subseteq> insert (pfx @ arg) (fst ` set acc)"
    unfolding e by (rule param_step_keys)
  ultimately have "fst ` set (foldl (param_step sp args pfx) (param_step sp args pfx acc e) schema)
          \<subseteq> insert (pfx @ arg) (fst ` set acc) \<union> (\<lambda>arg. pfx @ arg) ` fst ` set schema"
    by blast
  then show ?case unfolding e by auto
qed

lemma param_step_fresh:
  "pfx @ arg \<notin> fst ` set acc \<Longrightarrow>
   param_step sp args pfx acc (arg, options) =
     acc @ (case obj_get args arg of
              Undefined \<Rightarrow> []
            | Defined v \<Rightarrow> (case sp v options of None \<Rightarrow> [] | Some s \<Rightarrow> [(pfx @ arg, s)]))"
  by (simp add: param_step_def usp_set_fresh split: js_prop.splits option.splits)

lemma foldl_param_step_fresh:
  "distinct (map fst schema) \<Longrightarrow>
   \<forall>arg \<in> fst ` set schema. pfx @ arg \<notin> fst ` set acc \<Longrightarrow>
   foldl (param_step sp args pfx) acc schema =
     acc @ concat (map (\<lambda>(arg, options).
                     case obj_get args arg of
                       Undefined \<Rightarrow> []
                     | Defined v \<Rightarrow> (case sp v options of None \<Rightarrow> [] | Some s \<Rightarrow> [(pfx @ arg, s)]))
                   schema)"
proof (induction schema arbitrary: acc)
  case Nil
  then show ?case by simp
next
  case (Cons e schema)
  obtain arg options where e: "e = (arg, options)" by (cases e)
  let ?new = "case obj_get args arg of
                Undefined \<Rightarrow> []
              | Defined v \<Rightarrow> (case sp v options of None \<Rightarrow> [] | Some s \<Rightarrow> [(pfx @ arg, s)])"
  from Cons.prems e have fresh: "pfx @ arg \<notin> fst ` set acc" by simp
  then have step: "param_step sp args pfx acc e = acc @ ?new"
    unfolding e by (rule param_step_fresh)
  have new_keys: "fst ` set ?new \<subseteq> {pfx @ arg}"
    by (auto split: js_prop.splits option.splits)
  from Cons.prems e have arg_new: "arg \<notin> fst ` set schema" and dist: "distinct (map fst schema)"
    by auto
  have "\<forall>a \<in> fst ` set schema. pfx @ a \<notin> fst ` set (acc @ ?new)"
  proof
    fix a assume a: "a \<in> fst ` set schema"
    with arg_new have "a \<noteq> arg" by auto
    then have "pfx @ a \<noteq> pfx @ arg" by simp
    moreover from Cons.prems(2) a have "pfx @ a \<notin> fst ` set acc" by fastforce
    ultimately show "pfx @ a \<notin> fst ` set (acc @ ?new)"
      using new_keys by auto
  qed
  with dist have "foldl (param_step sp args pfx) (acc @ ?new) schema =
      (acc @ ?new) @ concat (map (\<lambda>(arg, options).
                     case obj_get args arg of
                       Undefined \<Rightarrow> []
                     | Defined v \<Rightarrow> (case sp v options of None \<Rightarrow> [] | Some s \<Rightarrow> [(pfx @ arg, s)]))
                   schema)"
    by (rule Cons.IH)
  with step e show ?case by simp
qed

lemma getUrlParamsFromArgs_entries:
  assumes "well_formed_object schema"
  shows "getUrlParamsFromArgs sp args schema pfx =
     concat (map (\<lambda>(arg, options).
                     case obj_get args arg of
                       Undefined \<Rightarrow> []
                     | Defined v \<Rightarrow> (case sp v options of None \<Rightarrow> []
                                    | Some s \<Rightarrow> [(prefix_arg pfx @ arg, s)]))
                   schema)"
proof -
  from assms have "distinct (map fst schema)"
    by (simp add: well_formed_object_def)
  moreover have "\<forall>arg \<in> fst ` set schema. prefix_arg pfx @ arg \<notin> fst ` set []"
    by simp
  ultimately have "foldl (param_step sp args (prefix_arg pfx)) [] schema =
     [] @ concat (map (\<lambda>(arg, options).
                     case obj_get args arg of
                       Undefined \<Rightarrow> []
                     | Defined v \<Rightarrow> (case sp v options of None \<Rightarrow> []
                                    | Some s \<Rightarrow> [(prefix_arg pfx @ arg, s)]))
                   schema)"
    by (rule foldl_param_step_fresh)
  then show ?thesis by (simp add: getUrlParamsFromArgs_def)
qed

lemma param_step_lookup:
  "map_of (param_step sp args pfx acc (arg, options)) k =
     (if k = pfx @ arg
      then (case obj_get args arg of
              Undefined \<Rightarrow> map_of acc k
            | Defined v \<Rightarrow> (case sp v options of None \<Rightarrow> map_of acc k | Some s \<Rightarrow> Some s))
      else map_of acc k)"
  by (simp add: param_step_def map_of_usp_set split: js_prop.splits option.splits)

lemma foldl_param_step_lookup:
  "distinct (map fst schema) \<Longrightarrow> (arg, options) \<in> set schema \<Longrightarrow>
   map_of (foldl (param_step sp args pfx) [] schema) (pfx @ arg) =
     (case obj_get args arg of Undefined \<Rightarrow> None | Defined v \<Rightarrow> sp v options)"
proof (induction schema rule: rev_induct)
  case Nil
  then show ?case by simp
next
  case (snoc e schema)
  obtain a o' where e: "e = (a, o')" by (cases e)
  from snoc.prems have dist: "distinct (map fst schema)" and a_new: "a \<notin> fst ` set schema"
    by (auto simp: e)
  let ?acc = "foldl (param_step sp args pfx) [] schema"
  show ?case
  proof (cases "a = arg")
    case True
    with snoc.prems(2) a_new e have o': "o' = options" by force
    from foldl_param_step_keys [of sp args pfx "[]" schema] a_new True
    have "pfx @ arg \<notin> fst ` set ?acc" by auto
    then have "map_of ?acc (pfx @ arg) = None"
      by (simp add: map_of_eq_None_iff)
    with True o' e show ?thesis
      by (simp add: param_step_lookup split: js_prop.splits option.splits)
  next
    case False
    with snoc.prems(2) e have "(arg, options) \<in> set schema" by auto
    with dist have "map_of ?acc (pfx @ arg) =
        (case obj_get args arg of Undefined \<Rightarrow> None | Defined v \<Rightarrow> sp v options)"
      by (rule snoc.IH)
    with False e show ?thesis
      by (simp add: param_step_lookup)
  qed
qed

lemma getUrlParamsFromArgs_get:
  assumes "well_formed_object schema" and "(arg, options) \<in> set schema"
  shows "usp_get (getUrlParamsFromArgs sp args schema pfx) (prefix_arg pfx @ arg) =
     (case obj_get args arg of
        Undefined \<Rightarrow> JsNull
      | Defined v \<Rightarrow> (case sp v options of None \<Rightarrow> JsNull | Some s \<Rightarrow> JsString s))"
proof -
  from assms(1) have "distinct (map fst schema)"
    by (simp add: well_formed_object_def)
  from this assms(2)
  have "map_of (foldl (param_step sp args (prefix_arg pfx)) [] schema) (prefix_arg pfx @ arg) =
     (case obj_get args arg of Undefined \<Rightarrow> None | Defined v \<Rightarrow> sp v options)"
    by (rule foldl_param_step_lookup)
  then show ?thesis
    by (simp add: usp_get_def getUrlParamsFromArgs_def split: js_prop.splits option.splits)
qed

text \<open>
  C2. For a schema object (its keys are distinct), the parameter set that
  \<^verbatim>\<open>getUrlParamsFromArgs\<close> returns is, schema entry by schema entry: nothing when
  \<^verbatim>\<open>args[arg]\<close> is \<^verbatim>\<open>undefined\<close>, whatever \<open>sanitizeParam\<close> would answer; nothing when
  \<open>sanitizeParam\<close> returns \<^verbatim>\<open>null\<close>; and the single pair of \<open>prefix + arg\<close> and the
  string \<open>sanitizeParam\<close> returns otherwise. Read back with \<^verbatim>\<open>get\<close>, every schema key
  gives that string, or \<^verbatim>\<open>null\<close> when nothing was emitted for it.
\<close>

theorem getUrlParamsFromArgs_contract:
  assumes "well_formed_object schema"
  shows "getUrlParamsFromArgs sanitizeParam args schema pfx =
           concat (map (\<lambda>(arg, options).
                     case obj_get args arg of
                       Undefined \<Rightarrow> []
                     | Defined v \<Rightarrow> (case sanitizeParam v options of None \<Rightarrow> []
                                    | Some s \<Rightarrow> [(prefix_arg pfx @ arg, s)]))
                   schema) \<and>
         (\<forall>(arg, options) \<in> set schema.
            usp_get (getUrlParamsFromArgs sanitizeParam args schema pfx) (prefix_arg pfx @ arg) =
              (case obj_get args arg of
                 Undefined \<Rightarrow> JsNull
               | Defined v \<Rightarrow> (case sanitizeParam v options of None \<Rightarrow> JsNull
                              | Some s \<Rightarrow> JsString s)))"
proof (intro conjI)
  from assms show "getUrlParamsFromArgs sanitizeParam args schema pfx =
           concat (map (\<lambda>(arg, options).
                     case obj_get args arg of
                       Undefined \<Rightarrow> []
                     | Defined v \<Rightarrow> (case sanitizeParam v options of None \<Rightarrow> []
                                    | Some s \<Rightarrow> [(prefix_arg pfx @ arg, s)]))
                   schema)"
    by (rule getUrlParamsFromArgs_entries)
next
  show "\<forall>(arg, options) \<in> set schema.
            usp_get (getUrlParamsFromArgs sanitizeParam args schema pfx) (prefix_arg pfx @ arg) =
              (case obj_get args arg of
                 Undefined \<Rightarrow> JsNull
               | Defined v \<Rightarrow> (case sanitizeParam v options of None \<Rightarrow> JsNull
                              | Some s \<Rightarrow> JsString s))"
  proof (intro ballI, clarify)
    fix arg options assume "(arg, options) \<in> set schema"
    with assms show "usp_get (getUrlParamsFromArgs sanitizeParam args schema pfx) (prefix_arg pfx @ arg) =
              (case obj_get args arg of
                 Undefined \<Rightarrow> JsNull
               | Defined v \<Rightarrow> (case sanitizeParam v options of None \<Rightarrow> JsNull
                              | Some s \<Rightarrow> JsString s))"
      by (rule getUrlParamsFromArgs_get)
  qed
qed

lemma example_schema_well_formed: "well_formed_object example_schema"
  by (simp add: well_formed_object_def example_schema_def)

theorem getUrlParamsFromArgs_contract_witness:
  "well_formed_object example_schema \<and>
   getUrlParamsFromArgs example_sanitizeParam example_args example_schema (Some ''ep-'') =
     [(''ep-search'', ''chairs''), (''ep-order'', ''asc'')] \<and>
   usp_get (getUrlParamsFromArgs example_sanitizeParam example_args example_schema (Some ''ep-''))
     ''ep-orderby'' = JsNull \<and>
   usp_get (getUrlParamsFromArgs example_sanitizeParam example_args example_schema (Some ''ep-''))
     ''ep-per_page'' = JsNull"
proof -
  note c = getUrlParamsFromArgs_contract [OF example_schema_well_formed,
      of example_sanitizeParam example_args "Some ''ep-''"]
  from c have "getUrlParamsFromArgs example_sanitizeParam example_args example_schema (Some ''ep-'') =
     [(''ep-search'', ''chairs''), (''ep-order'', ''asc'')]"
    by (simp add: example_schema_def example_args_def obj_get_def prefix_arg_def
        example_sanitizeParam_def example_allowed_def)
  moreover from c have "usp_get (getUrlParamsFromArgs example_sanitizeParam example_args example_schema (Some ''ep-''))
     ''ep-orderby'' = JsNull \<and>
   usp_get (getUrlParamsFromArgs example_sanitizeParam example_args example_schema (Some ''ep-''))
     ''ep-per_page'' = JsNull"
    by (simp add: example_schema_def example_args_def obj_get_def prefix_arg_def
        example_sanitizeParam_def example_allowed_def usp_get_def)
  ultimately show ?thesis using example_schema_well_formed by simp
qed

subsection \<open>No key is emitted twice\<close>

lemma distinct_keys_getAll_le_1:
  "distinct (map fst ps) \<Longrightarrow> length (usp_getAll ps k) \<le> 1"
proof (induction ps)
  case Nil
  then show ?case by (simp add: usp_getAll_def)
next
  case (Cons e ps)
  show ?case
  proof (cases "fst e = k")
    case True
    with Cons.prems have "k \<notin> fst ` set ps" by auto
    then have "filter (\<lambda>e. fst e = k) ps = []"
      by (auto simp: filter_empty_conv)
    with True show ?thesis by (simp add: usp_getAll_def)
  next
    case False
    with Cons show ?thesis by (simp add: usp_getAll_def)
  qed
qed

text \<open>
  C10. Whatever the arguments, the schema list and the prefix, the names of the parameter
  set returned by \<^verbatim>\<open>getUrlParamsFromArgs\<close> are pairwise distinct, and \<^verbatim>\<open>getAll\<close> finds at
  most one value under any name. This holds for every entry list, also one that repeats a
  key: \<^verbatim>\<open>set\<close> overwrites, it never adds a second pair for a name.
\<close>

theorem getUrlParamsFromArgs_unique_keys:
  "distinct (usp_keys (getUrlParamsFromArgs sanitizeParam args schema pfx)) \<and>
   length (usp_getAll (getUrlParamsFromArgs sanitizeParam args schema pfx) name) \<le> 1"
proof -
  have "distinct (map fst ([] :: url_search_params))" by simp
  then have d: "distinct (map fst (foldl (param_step sanitizeParam args (prefix_arg pfx)) [] schema))"
    by (rule foldl_param_step_distinct)
  then have "length (usp_getAll (foldl (param_step sanitizeParam args (prefix_arg pfx)) [] schema) name) \<le> 1"
    by (rule distinct_keys_getAll_le_1)
  with d show ?thesis
    by (simp add: getUrlParamsFromArgs_def usp_keys_def)
qed

subsection \<open>Parameter order\<close>

lemma keys_of_entries:
  "map fst (concat (map (\<lambda>(arg, options).
                     case obj_get args arg of
                       Undefined \<Rightarrow> []
                     | Defined v \<Rightarrow> (case sp v options of None \<Rightarrow> []
                                    | Some s \<Rightarrow> [(pfx @ arg, s)]))
                   schema)) =
   map (\<lambda>e. pfx @ fst e)
     (filter (\<lambda>(arg, options).
                case obj_get args arg of
                  Undefined \<Rightarrow> False
                | Defined v \<Rightarrow> sp v options \<noteq> None) schema)"
  by (induction schema) (auto split: js_prop.splits option.splits)

lemma has_iff_emitted:
  assumes "distinct (map fst schema)" and "(arg, options) \<in> set schema"
  shows "pfx @ arg \<in> fst ` set (foldl (param_step sp args pfx) [] schema) \<longleftrightarrow>
     (case obj_get args arg of Undefined \<Rightarrow> False | Defined v \<Rightarrow> sp v options \<noteq> None)"
proof -
  from assms have "map_of (foldl (param_step sp args pfx) [] schema) (pfx @ arg) =
     (case obj_get args arg of Undefined \<Rightarrow> None | Defined v \<Rightarrow> sp v options)"
    by (rule foldl_param_step_lookup)
  moreover have "pfx @ arg \<in> fst ` set (foldl (param_step sp args pfx) [] schema) \<longleftrightarrow>
     map_of (foldl (param_step sp args pfx) [] schema) (pfx @ arg) \<noteq> None"
    by (simp add: map_of_eq_None_iff)
  ultimately show ?thesis
    by (simp split: js_prop.splits)
qed

lemma obj_get_cong_set:
  assumes "distinct (map fst args)" and "distinct (map fst args')" and "set args' = set args"
  shows "obj_get args' = obj_get args"
proof -
  from assms have "map_of args' = map_of args"
    by (simp add: map_of_inject_set)
  then show ?thesis by (simp add: obj_get_def fun_eq_iff)
qed

text \<open>
  C8. For a schema object, the names of the returned parameter set are the schema's keys,
  each with the prefix in front, in the order \<^verbatim>\<open>Object.entries(schema)\<close> lists them,
  restricted to the keys for which a parameter was emitted. The order of the properties of
  \<open>args\<close> plays no part: any arguments object with the same properties listed in another
  order gives the same parameter set.
\<close>

theorem getUrlParamsFromArgs_schema_order:
  assumes "well_formed_object schema"
  shows "usp_keys (getUrlParamsFromArgs sanitizeParam args schema pfx) =
           filter (usp_has (getUrlParamsFromArgs sanitizeParam args schema pfx))
             (map (\<lambda>e. prefix_arg pfx @ fst e) schema) \<and>
         (\<forall>args'. well_formed_object args \<and> well_formed_object args' \<and> set args' = set args \<longrightarrow>
            getUrlParamsFromArgs sanitizeParam args' schema pfx =
            getUrlParamsFromArgs sanitizeParam args schema pfx)"
proof (intro conjI allI impI)
  let ?out = "getUrlParamsFromArgs sanitizeParam args schema pfx"
  let ?emits = "\<lambda>(arg, options).
                case obj_get args arg of
                  Undefined \<Rightarrow> False
                | Defined v \<Rightarrow> sanitizeParam v options \<noteq> None"
  from assms have dist: "distinct (map fst schema)"
    by (simp add: well_formed_object_def)
  have "usp_keys ?out = map (\<lambda>e. prefix_arg pfx @ fst e) (filter ?emits schema)"
    unfolding usp_keys_def getUrlParamsFromArgs_entries [OF assms]
    by (rule keys_of_entries)
  moreover have "filter (usp_has ?out) (map (\<lambda>e. prefix_arg pfx @ fst e) schema) =
      map (\<lambda>e. prefix_arg pfx @ fst e) (filter (\<lambda>e. usp_has ?out (prefix_arg pfx @ fst e)) schema)"
    by (simp add: filter_map comp_def)
  moreover have "filter (\<lambda>e. usp_has ?out (prefix_arg pfx @ fst e)) schema = filter ?emits schema"
  proof (rule filter_cong [OF refl])
    fix e assume "e \<in> set schema"
    moreover obtain arg options where e: "e = (arg, options)"
      by (cases e)
    ultimately have mem: "(arg, options) \<in> set schema"
      by simp
    from dist mem show "usp_has ?out (prefix_arg pfx @ fst e) = ?emits e"
      unfolding e usp_has_def getUrlParamsFromArgs_def
      by (simp add: has_iff_emitted)
  qed
  ultimately show "usp_keys ?out = filter (usp_has ?out) (map (\<lambda>e. prefix_arg pfx @ fst e) schema)"
    by simp
next
  fix args'
  assume "well_formed_object args \<and> well_formed_object args' \<and> set args' = set args"
  then have "obj_get args' = obj_get args"
    by (simp add: well_formed_object_def obj_get_cong_set)
  then have "param_step sanitizeParam args' (prefix_arg pfx) = param_step sanitizeParam args (prefix_arg pfx)"
    by (simp add: param_step_def fun_eq_iff)
  then show "getUrlParamsFromArgs sanitizeParam args' schema pfx =
            getUrlParamsFromArgs sanitizeParam args schema pfx"
    by (simp add: getUrlParamsFromArgs_def)
qed

theorem getUrlParamsFromArgs_schema_order_witness:
  "well_formed_object example_schema \<and>
   well_formed_object example_args \<and> well_formed_object (rev example_args) \<and>
   set (rev example_args) = set example_args \<and>
   map fst example_args = [''order'', ''unknown'', ''search'', ''orderby'', ''per_page''] \<and>
   map fst example_schema = [''search'', ''orderby'', ''order'', ''per_page''] \<and>
   usp_keys (getUrlParamsFromArgs example_sanitizeParam example_args example_schema (Some ''ep-''))
     = [''ep-search'', ''ep-order''] \<and>
   getUrlParamsFromArgs example_sanitizeParam (rev example_args) example_schema (Some ''ep-'') =
   getUrlParamsFromArgs example_sanitizeParam example_args example_schema (Some ''ep-'')"
proof -
  note c = getUrlParamsFromArgs_schema_order [OF example_schema_well_formed,
      of example_sanitizeParam example_args "Some ''ep-''"]
  have wf: "well_formed_object example_args" "well_formed_object (rev example_args)"
    by (simp_all add: well_formed_object_def example_args_def)
  have perm: "set (rev example_args) = set example_args" by simp
  from c wf perm
  have same: "getUrlParamsFromArgs example_sanitizeParam (rev example_args) example_schema (Some ''ep-'') =
   getUrlParamsFromArgs example_sanitizeParam example_args example_schema (Some ''ep-'')"
    by blast
  have has: "usp_has (getUrlParamsFromArgs example_sanitizeParam example_args example_schema (Some ''ep-'')) =
      (\<lambda>k. k = ''ep-search'' \<or> k = ''ep-order'')"
    by (auto simp: fun_eq_iff usp_has_def getUrlParamsFromArgs_def example_schema_def example_args_def
        param_step_def obj_get_def prefix_arg_def example_sanitizeParam_def example_allowed_def)
  from c have "usp_keys (getUrlParamsFromArgs example_sanitizeParam example_args example_schema (Some ''ep-''))
     = filter (\<lambda>k. k = ''ep-search'' \<or> k = ''ep-order'')
         (map (\<lambda>e. prefix_arg (Some ''ep-'') @ fst e) example_schema)"
    unfolding has by blast
  then have keys: "usp_keys (getUrlParamsFromArgs example_sanitizeParam example_args example_schema (Some ''ep-''))
     = [''ep-search'', ''ep-order'']"
    by (simp add: example_schema_def prefix_arg_def)
  have "map fst example_args = [''order'', ''unknown'', ''search'', ''orderby'', ''per_page'']"
    and "map fst example_schema = [''search'', ''orderby'', ''order'', ''per_page'']"
    by (simp_all add: example_args_def example_schema_def)
  with example_schema_well_formed wf perm keys same show ?thesis by blast
qed

section \<open>Deserialization: \<^verbatim>\<open>getArgsFromUrlParams\<close>\<close>

lemma usp_get_defined: "usp_get ps name \<noteq> JsUndefined"
  by (simp add: usp_get_def split: option.splits)

lemma usp_get_first:
  "usp_get ps name =
     (if usp_has ps name then JsString (hd (usp_getAll ps name)) else JsNull)"
  by (induction ps) (auto simp: usp_get_def usp_has_def usp_getAll_def)

lemma update_fresh: "k \<notin> fst ` set al \<Longrightarrow> AList.update k v al = al @ [(k, v)]"
  by (induction al) auto

lemma arg_step_eq:
  "arg_step sa ps pfx ud acc (arg, options) =
     (case sa (usp_get ps (pfx @ arg)) options ud of
        None \<Rightarrow> acc
      | Some v \<Rightarrow> AList.update arg v acc)"
  by (simp add: arg_step_def usp_get_defined)

lemma arg_step_keys:
  "fst ` set (arg_step sa ps pfx ud acc (arg, options)) \<subseteq> insert arg (fst ` set acc)"
  by (auto simp: arg_step_eq dom_update split: option.splits)

lemma foldl_arg_step_keys:
  "fst ` set (foldl (arg_step sa ps pfx ud) acc schema) \<subseteq> fst ` set acc \<union> fst ` set schema"
proof (induction schema arbitrary: acc)
  case Nil
  then show ?case by simp
next
  case (Cons e schema)
  obtain arg options where e: "e = (arg, options)" by (cases e)
  have "fst ` set (foldl (arg_step sa ps pfx ud) (arg_step sa ps pfx ud acc e) schema)
          \<subseteq> fst ` set (arg_step sa ps pfx ud acc e) \<union> fst ` set schema"
    by (rule Cons.IH)
  moreover have "fst ` set (arg_step sa ps pfx ud acc e) \<subseteq> insert arg (fst ` set acc)"
    unfolding e by (rule arg_step_keys)
  ultimately have "fst ` set (foldl (arg_step sa ps pfx ud) (arg_step sa ps pfx ud acc e) schema)
          \<subseteq> insert arg (fst ` set acc) \<union> fst ` set schema"
    by blast
  then show ?case unfolding e by auto
qed

lemma foldl_arg_step_fresh:
  "distinct (map fst schema) \<Longrightarrow>
   \<forall>arg \<in> fst ` set schema. arg \<notin> fst ` set acc \<Longrightarrow>
   foldl (arg_step sa ps pfx ud) acc schema =
     acc @ concat (map (\<lambda>(arg, options).
                     case sa (usp_get ps (pfx @ arg)) options ud of
                       None \<Rightarrow> []
                     | Some v \<Rightarrow> [(arg, v)])
                   schema)"
proof (induction schema arbitrary: acc)
  case Nil
  then show ?case by simp
next
  case (Cons e schema)
  obtain arg options where e: "e = (arg, options)" by (cases e)
  let ?new = "case sa (usp_get ps (pfx @ arg)) options ud of None \<Rightarrow> [] | Some v \<Rightarrow> [(arg, v)]"
  from Cons.prems(2) have fresh: "arg \<notin> fst ` set acc"
    unfolding e by simp
  then have step: "arg_step sa ps pfx ud acc e = acc @ ?new"
    unfolding e by (simp add: arg_step_eq update_fresh split: option.splits)
  have new_keys: "fst ` set ?new \<subseteq> {arg}"
    by (auto split: option.splits)
  from Cons.prems(1) have arg_new: "arg \<notin> fst ` set schema" and dist: "distinct (map fst schema)"
    unfolding e by simp_all
  have "\<forall>a \<in> fst ` set schema. a \<notin> fst ` set (acc @ ?new)"
  proof
    fix a assume a: "a \<in> fst ` set schema"
    with arg_new have "a \<noteq> arg" by blast
    with new_keys have "a \<notin> fst ` set ?new" by blast
    moreover from a have "a \<in> fst ` set (e # schema)" by simp
    with Cons.prems(2) have "a \<notin> fst ` set acc" by blast
    ultimately show "a \<notin> fst ` set (acc @ ?new)"
      by (simp add: image_Un)
  qed
  with dist have "foldl (arg_step sa ps pfx ud) (acc @ ?new) schema =
      (acc @ ?new) @ concat (map (\<lambda>(arg, options).
                     case sa (usp_get ps (pfx @ arg)) options ud of
                       None \<Rightarrow> []
                     | Some v \<Rightarrow> [(arg, v)])
                   schema)"
    by (rule Cons.IH)
  with step e show ?case by simp
qed

lemma arg_step_lookup:
  "map_of (arg_step sa ps pfx ud acc (arg, options)) k =
     (if k = arg
      then (case sa (usp_get ps (pfx @ arg)) options ud of
              None \<Rightarrow> map_of acc k
            | Some v \<Rightarrow> Some v)
      else map_of acc k)"
  by (simp add: arg_step_eq update_conv' split: option.splits)

lemma foldl_arg_step_lookup:
  "distinct (map fst schema) \<Longrightarrow> (arg, options) \<in> set schema \<Longrightarrow>
   map_of (foldl (arg_step sa ps pfx ud) [] schema) arg = sa (usp_get ps (pfx @ arg)) options ud"
proof (induction schema rule: rev_induct)
  case Nil
  then show ?case by simp
next
  case (snoc e schema)
  obtain a o' where e: "e = (a, o')" by (cases e)
  from snoc.prems have dist: "distinct (map fst schema)" and a_new: "a \<notin> fst ` set schema"
    by (auto simp: e)
  let ?acc = "foldl (arg_step sa ps pfx ud) [] schema"
  show ?case
  proof (cases "a = arg")
    case True
    with snoc.prems(2) a_new e have o': "o' = options" by force
    from foldl_arg_step_keys [of sa ps pfx ud "[]" schema] a_new True
    have "arg \<notin> fst ` set ?acc" by auto
    then have "map_of ?acc arg = None"
      by (simp add: map_of_eq_None_iff)
    with True o' e show ?thesis
      by (simp add: arg_step_lookup split: option.splits)
  next
    case False
    with snoc.prems(2) e have "(arg, options) \<in> set schema" by auto
    with dist have "map_of ?acc arg = sa (usp_get ps (pfx @ arg)) options ud"
      by (rule snoc.IH)
    with False e show ?thesis
      by (simp add: arg_step_lookup)
  qed
qed

lemma getArgsFromUrlParams_entries:
  assumes "well_formed_object schema"
  shows "getArgsFromUrlParams sa ps schema pfx ud =
     concat (map (\<lambda>(arg, options).
                     case sa (usp_get ps (prefix_arg pfx @ arg)) options (useDefaults_arg ud) of
                       None \<Rightarrow> []
                     | Some v \<Rightarrow> [(arg, v)])
                   schema)"
proof -
  from assms have "distinct (map fst schema)"
    by (simp add: well_formed_object_def)
  moreover have "\<forall>arg \<in> fst ` set schema. arg \<notin> fst ` set []"
    by simp
  ultimately have "foldl (arg_step sa ps (prefix_arg pfx) (useDefaults_arg ud)) [] schema =
     [] @ concat (map (\<lambda>(arg, options).
                     case sa (usp_get ps (prefix_arg pfx @ arg)) options (useDefaults_arg ud) of
                       None \<Rightarrow> []
                     | Some v \<Rightarrow> [(arg, v)])
                   schema)"
    by (rule foldl_arg_step_fresh)
  then show ?thesis by (simp add: getArgsFromUrlParams_def)
qed

lemma getArgsFromUrlParams_lookup:
  assumes "well_formed_object schema" and "(arg, options) \<in> set schema"
  shows "map_of (getArgsFromUrlParams sa ps schema pfx ud) arg =
     sa (usp_get ps (prefix_arg pfx @ arg)) options (useDefaults_arg ud)"
proof -
  from assms(1) have "distinct (map fst schema)"
    by (simp add: well_formed_object_def)
  from this assms(2) show ?thesis
    unfolding getArgsFromUrlParams_def by (rule foldl_arg_step_lookup)
qed

text \<open>
  C1 as stated has \<open>sanitizeArg\<close> called with \<^verbatim>\<open>undefined\<close> for an absent parameter. With a
  sanitizer that tells \<^verbatim>\<open>undefined\<close> from \<^verbatim>\<open>null\<close> the difference shows: for the schema
  \<^verbatim>\<open>{post_type: ...}\<close> and no parameters, this sanitizer answers \<^verbatim>\<open>'any'\<close> to
  \<^verbatim>\<open>undefined\<close>, so the claim puts \<^verbatim>\<open>post_type: 'any'\<close> in the result, while the function
  returns the empty object: \<^verbatim>\<open>urlParams.get\<close> returned \<^verbatim>\<open>null\<close>, which the sanitizer
  received.
\<close>

theorem getArgsFromUrlParams_undefined_counterexample:
  "\<not> usp_has [] ''post_type'' \<and>
   default_parameter_sanitizeArg JsUndefined () True = Some ''any'' \<and>
   map_of (getArgsFromUrlParams default_parameter_sanitizeArg [] [(''post_type'', ())] None None)
     ''post_type'' \<noteq> default_parameter_sanitizeArg JsUndefined () True \<and>
   map_of (getArgsFromUrlParams default_parameter_sanitizeArg [] [(''post_type'', ())] None None)
     ''post_type'' = default_parameter_sanitizeArg JsNull () True \<and>
   getArgsFromUrlParams default_parameter_sanitizeArg [] [(''post_type'', ())] None None = []"
  by (simp add: usp_has_def default_parameter_sanitizeArg_def getArgsFromUrlParams_def
      arg_step_def usp_get_def prefix_arg_def useDefaults_arg_def)

text \<open>
  C1, amended. For a schema object, the object that \<^verbatim>\<open>getArgsFromUrlParams\<close> returns is,
  schema entry by schema entry, the property \<open>arg\<close> bound to what \<open>sanitizeArg\<close> returns,
  and no property at all when \<open>sanitizeArg\<close> returns \<^verbatim>\<open>null\<close>. The sanitizer is called
  with the first value of the parameter \<open>prefix + arg\<close> when the parameter is present and
  with \<^verbatim>\<open>null\<close> (never \<^verbatim>\<open>undefined\<close>) when it is absent, and with the \<open>useDefaults\<close> flag.
\<close>

theorem getArgsFromUrlParams_contract:
  assumes "well_formed_object schema"
  shows "getArgsFromUrlParams sanitizeArg urlParams schema pfx useDefaults =
           concat (map (\<lambda>(arg, options).
                     case sanitizeArg (usp_get urlParams (prefix_arg pfx @ arg)) options
                            (useDefaults_arg useDefaults) of
                       None \<Rightarrow> []
                     | Some v \<Rightarrow> [(arg, v)])
                   schema) \<and>
         (\<forall>(arg, options) \<in> set schema.
            usp_get urlParams (prefix_arg pfx @ arg) =
              (if usp_has urlParams (prefix_arg pfx @ arg)
               then JsString (hd (usp_getAll urlParams (prefix_arg pfx @ arg)))
               else JsNull) \<and>
            map_of (getArgsFromUrlParams sanitizeArg urlParams schema pfx useDefaults) arg =
              sanitizeArg (usp_get urlParams (prefix_arg pfx @ arg)) options
                (useDefaults_arg useDefaults) \<and>
            (arg \<in> fst ` set (getArgsFromUrlParams sanitizeArg urlParams schema pfx useDefaults)
               \<longleftrightarrow> sanitizeArg (usp_get urlParams (prefix_arg pfx @ arg)) options
                     (useDefaults_arg useDefaults) \<noteq> None))"
proof (intro conjI)
  from assms show "getArgsFromUrlParams sanitizeArg urlParams schema pfx useDefaults =
           concat (map (\<lambda>(arg, options).
                     case sanitizeArg (usp_get urlParams (prefix_arg pfx @ arg)) options
                            (useDefaults_arg useDefaults) of
                       None \<Rightarrow> []
                     | Some v \<Rightarrow> [(arg, v)])
                   schema)"
    by (rule getArgsFromUrlParams_entries)
next
  let ?result = "getArgsFromUrlParams sanitizeArg urlParams schema pfx useDefaults"
  show "\<forall>(arg, options) \<in> set schema.
            usp_get urlParams (prefix_arg pfx @ arg) =
              (if usp_has urlParams (prefix_arg pfx @ arg)
               then JsString (hd (usp_getAll urlParams (prefix_arg pfx @ arg)))
               else JsNull) \<and>
            map_of ?result arg =
              sanitizeArg (usp_get urlParams (prefix_arg pfx @ arg)) options
                (useDefaults_arg useDefaults) \<and>
            (arg \<in> fst ` set ?result
               \<longleftrightarrow> sanitizeArg (usp_get urlParams (prefix_arg pfx @ arg)) options
                     (useDefaults_arg useDefaults) \<noteq> None)"
  proof (intro ballI, clarify, intro conjI)
    fix arg options assume mem: "(arg, options) \<in> set schema"
    show "usp_get urlParams (prefix_arg pfx @ arg) =
              (if usp_has urlParams (prefix_arg pfx @ arg)
               then JsString (hd (usp_getAll urlParams (prefix_arg pfx @ arg)))
               else JsNull)"
      by (rule usp_get_first)
    from assms mem show lookup: "map_of ?result arg =
              sanitizeArg (usp_get urlParams (prefix_arg pfx @ arg)) options
                (useDefaults_arg useDefaults)"
      by (rule getArgsFromUrlParams_lookup)
    have "arg \<in> fst ` set ?result \<longleftrightarrow> map_of ?result arg \<noteq> None"
      by (simp add: map_of_eq_None_iff)
    with lookup show "arg \<in> fst ` set ?result
               \<longleftrightarrow> sanitizeArg (usp_get urlParams (prefix_arg pfx @ arg)) options
                     (useDefaults_arg useDefaults) \<noteq> None"
      by simp
  qed
qed

theorem getArgsFromUrlParams_contract_witness:
  "well_formed_object example_schema \<and>
   getArgsFromUrlParams example_sanitizeArg
     [(''ep-search'', ''chairs''), (''page'', ''2''), (''ep-order'', ''asc''),
      (''ep-search'', ''tables'')]
     example_schema (Some ''ep-'') None =
     [(''search'', ''chairs''), (''orderby'', ''relevance''), (''order'', ''asc''),
      (''per_page'', ''6'')] \<and>
   getArgsFromUrlParams example_sanitizeArg
     [(''ep-search'', ''chairs''), (''page'', ''2''), (''ep-order'', ''asc''),
      (''ep-search'', ''tables'')]
     example_schema (Some ''ep-'') (Some False) =
     [(''search'', ''chairs''), (''order'', ''asc'')]"
proof -
  let ?ps = "[(''ep-search'', ''chairs''), (''page'', ''2''), (''ep-order'', ''asc''),
      (''ep-search'', ''tables'')]"
  from getArgsFromUrlParams_contract [OF example_schema_well_formed,
      of example_sanitizeArg ?ps "Some ''ep-''" None]
  have "getArgsFromUrlParams example_sanitizeArg ?ps example_schema (Some ''ep-'') None =
     [(''search'', ''chairs''), (''orderby'', ''relevance''), (''order'', ''asc''),
      (''per_page'', ''6'')]"
    by (simp add: example_schema_def usp_get_def prefix_arg_def useDefaults_arg_def
        example_sanitizeArg_def example_allowed_def)
  moreover
  from getArgsFromUrlParams_contract [OF example_schema_well_formed,
      of example_sanitizeArg ?ps "Some ''ep-''" "Some False"]
  have "getArgsFromUrlParams example_sanitizeArg ?ps example_schema (Some ''ep-'') (Some False) =
     [(''search'', ''chairs''), (''order'', ''asc'')]"
    by (simp add: example_schema_def usp_get_def prefix_arg_def useDefaults_arg_def
        example_sanitizeArg_def example_allowed_def)
  ultimately show ?thesis using example_schema_well_formed by simp
qed

section \<open>Round trip\<close>

lemma roundtrip_lookup:
  assumes "well_formed_object schema"
    and "(arg, options) \<in> set schema"
    and "obj_get args arg = Defined v"
  shows "map_of (getArgsFromUrlParams sanitizeArg
                   (getUrlParamsFromArgs sanitizeParam args schema pfx)
                   schema pfx useDefaults) arg =
         sanitizeArg (case sanitizeParam v options of None \<Rightarrow> JsNull | Some s \<Rightarrow> JsString s)
           options (useDefaults_arg useDefaults)"
proof -
  let ?urlParams = "getUrlParamsFromArgs sanitizeParam args schema pfx"
  from assms(1,2) have "usp_get ?urlParams (prefix_arg pfx @ arg) =
     (case obj_get args arg of
        Undefined \<Rightarrow> JsNull
      | Defined v \<Rightarrow> (case sanitizeParam v options of None \<Rightarrow> JsNull | Some s \<Rightarrow> JsString s))"
    by (rule getUrlParamsFromArgs_get)
  with assms(3) have read: "usp_get ?urlParams (prefix_arg pfx @ arg) =
     (case sanitizeParam v options of None \<Rightarrow> JsNull | Some s \<Rightarrow> JsString s)"
    by simp
  from assms(1,2) have "map_of (getArgsFromUrlParams sanitizeArg ?urlParams schema pfx useDefaults) arg =
     sanitizeArg (usp_get ?urlParams (prefix_arg pfx @ arg)) options (useDefaults_arg useDefaults)"
    by (rule getArgsFromUrlParams_lookup)
  with read show ?thesis by simp
qed

text \<open>
  C3 as stated restores every key whose value the schema's sanitizers accept. A value
  equal to the schema's default is such a value, and \<open>sanitizeParam\<close> is expected to
  suppress it. With the example sanitizers and the example arguments, \<^verbatim>\<open>per_page\<close> is
  \<^verbatim>\<open>'6'\<close>, the default of its schema entry: the value is allowed, \<open>sanitizeArg\<close> reads the
  string \<^verbatim>\<open>'6'\<close> as \<^verbatim>\<open>'6'\<close>, but \<open>sanitizeParam\<close> returns \<^verbatim>\<open>null\<close> for it, no parameter is
  emitted, and deserializing with \<^verbatim>\<open>useDefaults = false\<close> gives an object without
  \<^verbatim>\<open>per_page\<close>.
\<close>

theorem roundtrip_default_counterexample:
  "(''per_page'', \<lparr>schema_type = ''string'', schema_default = Some ''6'',
                   schema_allowedValues = None\<rparr>) \<in> set example_schema \<and>
   obj_get example_args ''per_page'' = Defined ''6'' \<and>
   example_allowed \<lparr>schema_type = ''string'', schema_default = Some ''6'',
                    schema_allowedValues = None\<rparr> ''6'' \<and>
   example_sanitizeArg (JsString ''6'')
     \<lparr>schema_type = ''string'', schema_default = Some ''6'',
      schema_allowedValues = None\<rparr> False = Some ''6'' \<and>
   example_sanitizeParam ''6''
     \<lparr>schema_type = ''string'', schema_default = Some ''6'',
      schema_allowedValues = None\<rparr> = None \<and>
   getArgsFromUrlParams example_sanitizeArg
     (getUrlParamsFromArgs example_sanitizeParam example_args example_schema (Some ''ep-''))
     example_schema (Some ''ep-'') (Some False) =
     [(''search'', ''chairs''), (''order'', ''asc'')] \<and>
   map_of (getArgsFromUrlParams example_sanitizeArg
             (getUrlParamsFromArgs example_sanitizeParam example_args example_schema (Some ''ep-''))
             example_schema (Some ''ep-'') (Some False)) ''per_page'' = None"
  by (simp add: example_schema_def example_args_def obj_get_def example_allowed_def
      example_sanitizeArg_def example_sanitizeParam_def getArgsFromUrlParams_def
      getUrlParamsFromArgs_def param_step_def arg_step_def usp_get_def prefix_arg_def
      useDefaults_arg_def)

text \<open>
  C3, amended. Fix a schema object and a prefix, and let \<open>arg\<close> be a schema key with a
  defined value \<open>v\<close> in \<open>args\<close>. Deserializing the serialized \<open>args\<close> with
  \<^verbatim>\<open>useDefaults = false\<close> binds \<open>arg\<close> to what \<open>sanitizeArg\<close>, without defaults, makes of
  the string \<open>sanitizeParam\<close> emitted for \<open>v\<close>, or of \<^verbatim>\<open>null\<close> when \<open>sanitizeParam\<close>
  suppressed \<open>v\<close>. So the key is restored whenever \<open>sanitizeParam\<close> emits a string that
  \<open>sanitizeArg\<close> reads back as \<open>v\<close>; a suppressed value, such as one equal to its
  default, comes back only if \<open>sanitizeArg\<close> returns it for \<^verbatim>\<open>null\<close> without defaults.
\<close>

theorem roundtrip_restores_emitted:
  assumes "well_formed_object schema"
    and "(arg, options) \<in> set schema"
    and "obj_get args arg = Defined v"
  shows "map_of (getArgsFromUrlParams sanitizeArg
                   (getUrlParamsFromArgs sanitizeParam args schema pfx)
                   schema pfx (Some False)) arg =
           sanitizeArg (case sanitizeParam v options of None \<Rightarrow> JsNull | Some s \<Rightarrow> JsString s)
             options False \<and>
         (\<forall>s. sanitizeParam v options = Some s \<and> sanitizeArg (JsString s) options False = Some v \<longrightarrow>
            map_of (getArgsFromUrlParams sanitizeArg
                      (getUrlParamsFromArgs sanitizeParam args schema pfx)
                      schema pfx (Some False)) arg = Some v) \<and>
         (sanitizeParam v options = None \<longrightarrow>
            map_of (getArgsFromUrlParams sanitizeArg
                      (getUrlParamsFromArgs sanitizeParam args schema pfx)
                      schema pfx (Some False)) arg = sanitizeArg JsNull options False)"
proof -
  let ?result = "getArgsFromUrlParams sanitizeArg
                 (getUrlParamsFromArgs sanitizeParam args schema pfx) schema pfx (Some False)"
  from assms have "map_of ?result arg =
      sanitizeArg (case sanitizeParam v options of None \<Rightarrow> JsNull | Some s \<Rightarrow> JsString s)
        options (useDefaults_arg (Some False))"
    by (rule roundtrip_lookup)
  then have general: "map_of ?result arg =
      sanitizeArg (case sanitizeParam v options of None \<Rightarrow> JsNull | Some s \<Rightarrow> JsString s)
        options False"
    by (simp add: useDefaults_arg_def)
  have restored: "\<forall>s. sanitizeParam v options = Some s \<and>
      sanitizeArg (JsString s) options False = Some v \<longrightarrow> map_of ?result arg = Some v"
  proof (intro allI impI)
    fix s assume "sanitizeParam v options = Some s \<and> sanitizeArg (JsString s) options False = Some v"
    with general show "map_of ?result arg = Some v" by simp
  qed
  have suppressed: "sanitizeParam v options = None \<longrightarrow>
      map_of ?result arg = sanitizeArg JsNull options False"
  proof
    assume "sanitizeParam v options = None"
    with general show "map_of ?result arg = sanitizeArg JsNull options False" by simp
  qed
  from general restored suppressed show ?thesis by blast
qed

theorem roundtrip_restores_emitted_witness:
  "well_formed_object example_schema \<and>
   (''order'', \<lparr>schema_type = ''string'', schema_default = Some ''desc'',
                schema_allowedValues = Some [''asc'', ''desc'']\<rparr>) \<in> set example_schema \<and>
   obj_get example_args ''order'' = Defined ''asc'' \<and>
   example_sanitizeParam ''asc''
     \<lparr>schema_type = ''string'', schema_default = Some ''desc'',
      schema_allowedValues = Some [''asc'', ''desc'']\<rparr> = Some ''asc'' \<and>
   example_sanitizeArg (JsString ''asc'')
     \<lparr>schema_type = ''string'', schema_default = Some ''desc'',
      schema_allowedValues = Some [''asc'', ''desc'']\<rparr> False = Some ''asc'' \<and>
   map_of (getArgsFromUrlParams example_sanitizeArg
             (getUrlParamsFromArgs example_sanitizeParam example_args example_schema (Some ''ep-''))
             example_schema (Some ''ep-'') (Some False)) ''order'' = Some ''asc'' \<and>
   (''per_page'', \<lparr>schema_type = ''string'', schema_default = Some ''6'',
                   schema_allowedValues = None\<rparr>) \<in> set example_schema \<and>
   obj_get example_args ''per_page'' = Defined ''6'' \<and>
   example_sanitizeParam ''6''
     \<lparr>schema_type = ''string'', schema_default = Some ''6'',
      schema_allowedValues = None\<rparr> = None \<and>
   map_of (getArgsFromUrlParams example_sanitizeArg
             (getUrlParamsFromArgs example_sanitizeParam example_args example_schema (Some ''ep-''))
             example_schema (Some ''ep-'') (Some False)) ''per_page'' = None"
proof -
  let ?order = "\<lparr>schema_type = ''string'', schema_default = Some ''desc'',
      schema_allowedValues = Some [''asc'', ''desc'']\<rparr>"
  let ?per_page = "\<lparr>schema_type = ''string'', schema_default = Some ''6'',
      schema_allowedValues = None\<rparr>"
  let ?result = "getArgsFromUrlParams example_sanitizeArg
             (getUrlParamsFromArgs example_sanitizeParam example_args example_schema (Some ''ep-''))
             example_schema (Some ''ep-'') (Some False)"
  have mem: "(''order'', ?order) \<in> set example_schema"
    by (simp add: example_schema_def)
  have val: "obj_get example_args ''order'' = Defined ''asc''"
    by (simp add: example_args_def obj_get_def)
  have out: "example_sanitizeParam ''asc'' ?order = Some ''asc''"
    by (simp add: example_sanitizeParam_def example_allowed_def)
  have read_back: "example_sanitizeArg (JsString ''asc'') ?order False = Some ''asc''"
    by (simp add: example_sanitizeArg_def example_allowed_def)
  note emitted = roundtrip_restores_emitted [OF example_schema_well_formed mem val,
      where sanitizeArg = example_sanitizeArg and sanitizeParam = example_sanitizeParam
        and pfx = "Some ''ep-''"]
  from emitted out read_back have r1: "map_of ?result ''order'' = Some ''asc''"
    by blast
  have mem': "(''per_page'', ?per_page) \<in> set example_schema"
    by (simp add: example_schema_def)
  have val': "obj_get example_args ''per_page'' = Defined ''6''"
    by (simp add: example_args_def obj_get_def)
  have out': "example_sanitizeParam ''6'' ?per_page = None"
    by (simp add: example_sanitizeParam_def)
  note suppressed = roundtrip_restores_emitted [OF example_schema_well_formed mem' val',
      where sanitizeArg = example_sanitizeArg and sanitizeParam = example_sanitizeParam
        and pfx = "Some ''ep-''"]
  from suppressed out'
  have "map_of ?result ''per_page'' = example_sanitizeArg JsNull ?per_page False"
    by blast
  then have r2: "map_of ?result ''per_page'' = None"
    by (simp add: example_sanitizeArg_def)
  from example_schema_well_formed mem val out read_back r1 mem' val' out' r2
  show ?thesis by blast
qed

section \<open>Rewriting the current URL: \<^verbatim>\<open>getUrlWithParams\<close>\<close>

lemma foldl_delete_step:
  "foldl (delete_step paramPrefix) u keys =
     u\<lparr>searchParams :=
         filter (\<lambda>e. \<not> (startsWith (fst e) paramPrefix \<and> fst e \<in> set keys)) (searchParams u)\<rparr>"
proof (induction keys arbitrary: u)
  case Nil
  then show ?case by simp
next
  case (Cons key keys)
  show ?case
  proof (cases "startsWith key paramPrefix")
    case True
    then have "delete_step paramPrefix u key =
        u\<lparr>searchParams := filter (\<lambda>e. fst e \<noteq> key) (searchParams u)\<rparr>"
      by (simp add: delete_step_def usp_delete_def)
    moreover have "filter (\<lambda>e. \<not> (startsWith (fst e) paramPrefix \<and> fst e \<in> set keys))
          (filter (\<lambda>e. fst e \<noteq> key) (searchParams u)) =
        filter (\<lambda>e. \<not> (startsWith (fst e) paramPrefix \<and> fst e \<in> set (key # keys))) (searchParams u)"
      using True by (auto intro: filter_cong)
    ultimately show ?thesis by (simp add: Cons.IH)
  next
    case False
    then have "delete_step paramPrefix u key = u"
      by (simp add: delete_step_def)
    moreover have "filter (\<lambda>e. \<not> (startsWith (fst e) paramPrefix \<and> fst e \<in> set keys)) (searchParams u) =
        filter (\<lambda>e. \<not> (startsWith (fst e) paramPrefix \<and> fst e \<in> set (key # keys))) (searchParams u)"
      using False by (auto intro: filter_cong)
    ultimately show ?thesis by (simp add: Cons.IH)
  qed
qed

lemma delete_loop_strips_prefix:
  "foldl (delete_step paramPrefix) u (usp_keys (searchParams u)) =
     u\<lparr>searchParams := filter (\<lambda>e. \<not> startsWith (fst e) paramPrefix) (searchParams u)\<rparr>"
proof -
  have "filter (\<lambda>e. \<not> (startsWith (fst e) paramPrefix \<and> fst e \<in> set (usp_keys (searchParams u))))
          (searchParams u) =
        filter (\<lambda>e. \<not> startsWith (fst e) paramPrefix) (searchParams u)"
    by (rule filter_cong) (auto simp: usp_keys_def)
  then show ?thesis by (simp add: foldl_delete_step)
qed

lemma foldl_set_step:
  "foldl set_step u ps =
     u\<lparr>searchParams := foldl (\<lambda>acc (key, val). usp_set acc key val) (searchParams u) ps\<rparr>"
  by (induction ps arbitrary: u) (auto simp: set_step_def)

lemma getUrlWithParams_None:
  "getUrlWithParams location paramPrefix None =
     location\<lparr>searchParams :=
       filter (\<lambda>e. \<not> startsWith (fst e) paramPrefix) (searchParams location)\<rparr>"
  by (simp add: getUrlWithParams_def delete_loop_strips_prefix)

lemma getUrlWithParams_Some:
  "getUrlWithParams location paramPrefix (Some ps) =
     location\<lparr>searchParams :=
       foldl (\<lambda>acc (key, val). usp_set acc key val)
         (filter (\<lambda>e. \<not> startsWith (fst e) paramPrefix) (searchParams location)) ps\<rparr>"
  by (simp add: getUrlWithParams_def delete_loop_strips_prefix foldl_set_step)

lemma map_of_foldl_usp_set:
  "map_of (foldl (\<lambda>acc (key, val). usp_set acc key val) base ps) = map_of base ++ map_of (rev ps)"
proof (induction ps arbitrary: base)
  case Nil
  then show ?case by simp
next
  case (Cons e ps)
  obtain key val where e: "e = (key, val)" by (cases e)
  have "map_of (foldl (\<lambda>acc (key, val). usp_set acc key val) (usp_set base key val) ps) =
      map_of (usp_set base key val) ++ map_of (rev ps)"
    by (rule Cons.IH)
  also have "\<dots> = (map_of base ++ [key \<mapsto> val]) ++ map_of (rev ps)"
    by (simp add: map_of_usp_set)
  also have "\<dots> = map_of base ++ map_of (rev (e # ps))"
    by (simp add: e)
  finally show ?case by (simp add: e)
qed

lemma keys_foldl_usp_set:
  "fst ` set (foldl (\<lambda>acc (key, val). usp_set acc key val) base ps) = fst ` set base \<union> fst ` set ps"
proof (induction ps arbitrary: base)
  case Nil
  then show ?case by simp
next
  case (Cons e ps)
  obtain key val where e: "e = (key, val)" by (cases e)
  have "fst ` set (foldl (\<lambda>acc (key, val). usp_set acc key val) (usp_set base key val) ps) =
      fst ` set (usp_set base key val) \<union> fst ` set ps"
    by (rule Cons.IH)
  then show ?case by (simp add: e usp_set_keys Un_commute insert_commute)
qed

lemma getAll_foldl_usp_set_other:
  "k \<notin> fst ` set ps \<Longrightarrow>
   usp_getAll (foldl (\<lambda>acc (key, val). usp_set acc key val) base ps) k = usp_getAll base k"
proof (induction ps arbitrary: base)
  case Nil
  then show ?case by simp
next
  case (Cons e ps)
  obtain key val where e: "e = (key, val)" by (cases e)
  from Cons.prems have ne: "k \<noteq> key" and rest: "k \<notin> fst ` set ps"
    unfolding e by simp_all
  from rest have "usp_getAll (foldl (\<lambda>acc (key, val). usp_set acc key val) (usp_set base key val) ps) k =
      usp_getAll (usp_set base key val) k"
    by (rule Cons.IH)
  with ne show ?case by (simp add: e usp_getAll_usp_set_other)
qed

lemma foldl_usp_set_append:
  "\<forall>k \<in> fst ` set ps. k \<notin> fst ` set as \<Longrightarrow>
   foldl (\<lambda>acc (key, val). usp_set acc key val) (as @ bs) ps =
     as @ foldl (\<lambda>acc (key, val). usp_set acc key val) bs ps"
proof (induction ps arbitrary: bs)
  case Nil
  then show ?case by simp
next
  case (Cons e ps)
  obtain key val where e: "e = (key, val)" by (cases e)
  from Cons.prems have fresh: "key \<notin> fst ` set as" and rest: "\<forall>k \<in> fst ` set ps. k \<notin> fst ` set as"
    unfolding e by simp_all
  from fresh have "usp_set (as @ bs) key val = as @ usp_set bs key val"
    by (rule usp_set_append)
  moreover from rest have "foldl (\<lambda>acc (key, val). usp_set acc key val) (as @ usp_set bs key val) ps =
      as @ foldl (\<lambda>acc (key, val). usp_set acc key val) (usp_set bs key val) ps"
    by (rule Cons.IH)
  ultimately show ?case by (simp add: e)
qed

text \<open>
  C4. With \<open>stripped\<close> the parameters of the current URL whose name does not start with
  the prefix, in their order: without a parameter set, \<^verbatim>\<open>getUrlWithParams\<close> returns the
  current URL with \<open>stripped\<close> as its parameters; with a parameter set, it returns the
  current URL with the parameters obtained from \<open>stripped\<close> by \<^verbatim>\<open>set\<close>-ting every
  supplied pair, in the order of the set. Read as a map, the result then binds every
  supplied name to its last supplied value and every other name as \<open>stripped\<close> does. Path
  and fragment are those of the current URL.
\<close>

theorem getUrlWithParams_contract:
  "getUrlWithParams location paramPrefix None =
     location\<lparr>searchParams :=
       filter (\<lambda>e. \<not> startsWith (fst e) paramPrefix) (searchParams location)\<rparr> \<and>
   getUrlWithParams location paramPrefix (Some ps) =
     location\<lparr>searchParams :=
       foldl (\<lambda>acc (key, val). usp_set acc key val)
         (filter (\<lambda>e. \<not> startsWith (fst e) paramPrefix) (searchParams location)) ps\<rparr> \<and>
   map_of (searchParams (getUrlWithParams location paramPrefix (Some ps))) =
     map_of (filter (\<lambda>e. \<not> startsWith (fst e) paramPrefix) (searchParams location))
       ++ map_of (rev ps)"
proof (intro conjI)
  show "getUrlWithParams location paramPrefix None =
     location\<lparr>searchParams :=
       filter (\<lambda>e. \<not> startsWith (fst e) paramPrefix) (searchParams location)\<rparr>"
    by (rule getUrlWithParams_None)
  show with_params: "getUrlWithParams location paramPrefix (Some ps) =
     location\<lparr>searchParams :=
       foldl (\<lambda>acc (key, val). usp_set acc key val)
         (filter (\<lambda>e. \<not> startsWith (fst e) paramPrefix) (searchParams location)) ps\<rparr>"
    by (rule getUrlWithParams_Some)
  show "map_of (searchParams (getUrlWithParams location paramPrefix (Some ps))) =
     map_of (filter (\<lambda>e. \<not> startsWith (fst e) paramPrefix) (searchParams location))
       ++ map_of (rev ps)"
    unfolding with_params by (simp add: map_of_foldl_usp_set)
qed

theorem getUrlWithParams_contract_witness:
  "getUrlWithParams example_location ''ep-'' None =
     \<lparr>origin_path = ''https://example.com/shop/'',
      searchParams = [(''page'', ''2''), (''utm'', ''a''), (''utm'', ''b'')],
      hash = ''#results''\<rparr> \<and>
   getUrlWithParams example_location ''ep-''
     (Some [(''ep-search'', ''chairs''), (''ep-order'', ''desc''), (''ep-search'', ''tables'')]) =
     \<lparr>origin_path = ''https://example.com/shop/'',
      searchParams = [(''page'', ''2''), (''utm'', ''a''), (''utm'', ''b''),
                      (''ep-search'', ''tables''), (''ep-order'', ''desc'')],
      hash = ''#results''\<rparr>"
proof -
  note c = getUrlWithParams_contract [of example_location "''ep-''"
      "[(''ep-search'', ''chairs''), (''ep-order'', ''desc''), (''ep-search'', ''tables'')]"]
  have strip: "filter (\<lambda>e. \<not> startsWith (fst e) ''ep-'') (searchParams example_location) =
      [(''page'', ''2''), (''utm'', ''a''), (''utm'', ''b'')]"
    by (simp add: example_location_def startsWith_def)
  from c have "getUrlWithParams example_location ''ep-'' None =
      example_location\<lparr>searchParams := [(''page'', ''2''), (''utm'', ''a''), (''utm'', ''b'')]\<rparr>"
    unfolding strip by blast
  moreover from c have "getUrlWithParams example_location ''ep-''
     (Some [(''ep-search'', ''chairs''), (''ep-order'', ''desc''), (''ep-search'', ''tables'')]) =
      example_location\<lparr>searchParams :=
        foldl (\<lambda>acc (key, val). usp_set acc key val)
          [(''page'', ''2''), (''utm'', ''a''), (''utm'', ''b'')]
          [(''ep-search'', ''chairs''), (''ep-order'', ''desc''), (''ep-search'', ''tables'')]\<rparr>"
    unfolding strip by blast
  ultimately show ?thesis
    by (simp add: example_location_def usp_delete_def)
qed

text \<open>
  C6 as stated fails when the parameter set holds a name outside the prefix. On a URL
  without parameters, prefix \<^verbatim>\<open>ep-\<close> and the set \<^verbatim>\<open>ep-search=sofa&page=2\<close>, the first
  rewrite appends both pairs; the second removes \<^verbatim>\<open>ep-search\<close>, appends it again behind
  \<^verbatim>\<open>page\<close> and overwrites \<^verbatim>\<open>page\<close> in place: \<^verbatim>\<open>?ep-search=sofa&page=2\<close> becomes
  \<^verbatim>\<open>?page=2&ep-search=sofa\<close>.
\<close>

theorem getUrlWithParams_idempotence_counterexample:
  "getUrlWithParams
     \<lparr>origin_path = ''https://example.com/'', searchParams = [], hash = []\<rparr>
     ''ep-'' (Some [(''ep-search'', ''sofa''), (''page'', ''2'')]) =
     \<lparr>origin_path = ''https://example.com/'',
      searchParams = [(''ep-search'', ''sofa''), (''page'', ''2'')], hash = []\<rparr> \<and>
   getUrlWithParams
     (getUrlWithParams
        \<lparr>origin_path = ''https://example.com/'', searchParams = [], hash = []\<rparr>
        ''ep-'' (Some [(''ep-search'', ''sofa''), (''page'', ''2'')]))
     ''ep-'' (Some [(''ep-search'', ''sofa''), (''page'', ''2'')]) =
     \<lparr>origin_path = ''https://example.com/'',
      searchParams = [(''page'', ''2''), (''ep-search'', ''sofa'')], hash = []\<rparr> \<and>
   getUrlWithParams
     (getUrlWithParams
        \<lparr>origin_path = ''https://example.com/'', searchParams = [], hash = []\<rparr>
        ''ep-'' (Some [(''ep-search'', ''sofa''), (''page'', ''2'')]))
     ''ep-'' (Some [(''ep-search'', ''sofa''), (''page'', ''2'')]) \<noteq>
   getUrlWithParams
     \<lparr>origin_path = ''https://example.com/'', searchParams = [], hash = []\<rparr>
     ''ep-'' (Some [(''ep-search'', ''sofa''), (''page'', ''2'')])"
  by (simp add: getUrlWithParams_def usp_keys_def delete_step_def set_step_def
      startsWith_def usp_delete_def)

lemma strip_prefixed_keys:
  "\<forall>k \<in> fst ` set xs. startsWith k p \<Longrightarrow> filter (\<lambda>e. \<not> startsWith (fst e) p) xs = []"
  by (induction xs) auto

text \<open>
  C6, amended. When every name of the supplied parameter set starts with the prefix, or no
  set is supplied, rewriting the result of \<^verbatim>\<open>getUrlWithParams\<close> again with the same prefix
  and the same set gives the same URL.
\<close>

theorem getUrlWithParams_idempotent:
  assumes "\<forall>ps. params = Some ps \<longrightarrow> (\<forall>key \<in> set (usp_keys ps). startsWith key paramPrefix)"
  shows "getUrlWithParams (getUrlWithParams location paramPrefix params) paramPrefix params =
         getUrlWithParams location paramPrefix params"
proof (cases params)
  case None
  then show ?thesis by (simp add: getUrlWithParams_None)
next
  case (Some ps)
  let ?set_all = "foldl (\<lambda>acc (key, val). usp_set acc key val)"
  let ?strip = "filter (\<lambda>e. \<not> startsWith (fst e) paramPrefix)"
  let ?kept = "?strip (searchParams location)"
  from assms Some have prefixed: "\<forall>k \<in> fst ` set ps. startsWith k paramPrefix"
    by (simp add: usp_keys_def)
  have kept_keys: "\<forall>k \<in> fst ` set ?kept. \<not> startsWith k paramPrefix"
    by auto
  with prefixed have "\<forall>k \<in> fst ` set ps. k \<notin> fst ` set ?kept"
    by blast
  then have "?set_all (?kept @ []) ps = ?kept @ ?set_all [] ps"
    by (rule foldl_usp_set_append)
  then have first: "?set_all ?kept ps = ?kept @ ?set_all [] ps"
    by simp
  have "fst ` set (?set_all [] ps) = fst ` set ps"
    by (simp add: keys_foldl_usp_set)
  with prefixed have "\<forall>k \<in> fst ` set (?set_all [] ps). startsWith k paramPrefix"
    by simp
  then have "?strip (?set_all [] ps) = []"
    by (rule strip_prefixed_keys)
  then have "?strip (?kept @ ?set_all [] ps) = ?kept"
    by simp
  with first have "?set_all (?strip (?set_all ?kept ps)) ps = ?set_all ?kept ps"
    by simp
  with Some show ?thesis
    by (simp add: getUrlWithParams_Some)
qed

theorem getUrlWithParams_idempotent_witness:
  "usp_keys [(''ep-search'', ''chairs''), (''ep-order'', ''desc'')] = [''ep-search'', ''ep-order''] \<and>
   startsWith ''ep-search'' ''ep-'' \<and> startsWith ''ep-order'' ''ep-'' \<and>
   getUrlWithParams example_location ''ep-''
     (Some [(''ep-search'', ''chairs''), (''ep-order'', ''desc'')]) =
     \<lparr>origin_path = ''https://example.com/shop/'',
      searchParams = [(''page'', ''2''), (''utm'', ''a''), (''utm'', ''b''),
                      (''ep-search'', ''chairs''), (''ep-order'', ''desc'')],
      hash = ''#results''\<rparr> \<and>
   getUrlWithParams
     (getUrlWithParams example_location ''ep-''
        (Some [(''ep-search'', ''chairs''), (''ep-order'', ''desc'')]))
     ''ep-'' (Some [(''ep-search'', ''chairs''), (''ep-order'', ''desc'')]) =
     \<lparr>origin_path = ''https://example.com/shop/'',
      searchParams = [(''page'', ''2''), (''utm'', ''a''), (''utm'', ''b''),
                      (''ep-search'', ''chairs''), (''ep-order'', ''desc'')],
      hash = ''#results''\<rparr>"
proof -
  let ?ps = "[(''ep-search'', ''chairs''), (''ep-order'', ''desc'')]"
  have prefixed: "\<forall>key \<in> set (usp_keys ?ps). startsWith key ''ep-''"
    by (simp add: usp_keys_def startsWith_def)
  then have "\<forall>ps. Some ?ps = Some ps \<longrightarrow> (\<forall>key \<in> set (usp_keys ps). startsWith key ''ep-'')"
    by simp
  then have again: "getUrlWithParams (getUrlWithParams example_location ''ep-'' (Some ?ps)) ''ep-'' (Some ?ps) =
      getUrlWithParams example_location ''ep-'' (Some ?ps)"
    by (rule getUrlWithParams_idempotent)
  have once: "getUrlWithParams example_location ''ep-'' (Some ?ps) =
     \<lparr>origin_path = ''https://example.com/shop/'',
      searchParams = [(''page'', ''2''), (''utm'', ''a''), (''utm'', ''b''),
                      (''ep-search'', ''chairs''), (''ep-order'', ''desc'')],
      hash = ''#results''\<rparr>"
    by (simp add: getUrlWithParams_Some example_location_def startsWith_def)
  have "usp_keys ?ps = [''ep-search'', ''ep-order'']"
    and "startsWith ''ep-search'' ''ep-''" and "startsWith ''ep-order'' ''ep-''"
    by (simp_all add: usp_keys_def startsWith_def)
  with once again show ?thesis by simp
qed

section \<open>Prefix isolation and schema frame\<close>

lemma arg_step_reads_schema_params:
  assumes "\<forall>arg \<in> fst ` set schema. usp_get ps' (pfx @ arg) = usp_get ps (pfx @ arg)"
  shows "foldl (arg_step sa ps' pfx ud) acc schema = foldl (arg_step sa ps pfx ud) acc schema"
proof (rule foldl_cong [OF refl refl])
  fix a e assume "e \<in> set schema"
  moreover obtain arg options where e: "e = (arg, options)" by (cases e)
  ultimately have "arg \<in> fst ` set schema" by force
  with assms have "usp_get ps' (pfx @ arg) = usp_get ps (pfx @ arg)" by blast
  then show "arg_step sa ps' pfx ud a e = arg_step sa ps pfx ud a e"
    by (simp add: e arg_step_def)
qed

lemma param_step_reads_schema_args:
  assumes "\<forall>arg \<in> fst ` set schema. obj_get args' arg = obj_get args arg"
  shows "foldl (param_step sp args' pfx) acc schema = foldl (param_step sp args pfx) acc schema"
proof (rule foldl_cong [OF refl refl])
  fix a e assume "e \<in> set schema"
  moreover obtain arg options where e: "e = (arg, options)" by (cases e)
  ultimately have "arg \<in> fst ` set schema" by force
  with assms have "obj_get args' arg = obj_get args arg" by blast
  then show "param_step sp args' pfx a e = param_step sp args pfx a e"
    by (simp add: e param_step_def)
qed

lemma usp_getAll_strip_other:
  "\<not> startsWith key p \<Longrightarrow>
   usp_getAll (filter (\<lambda>e. \<not> startsWith (fst e) p) ps) key = usp_getAll ps key"
proof -
  assume "\<not> startsWith key p"
  then have "filter (\<lambda>e. fst e = key) (filter (\<lambda>e. \<not> startsWith (fst e) p) ps) =
      filter (\<lambda>e. fst e = key) ps"
    by (auto intro: filter_cong)
  then show ?thesis by (simp add: usp_getAll_def)
qed

lemma usp_has_getUrlWithParams:
  assumes "\<not> startsWith key p" and "usp_has (searchParams location) key"
  shows "usp_has (searchParams (getUrlWithParams location p params)) key"
proof -
  from assms have kept: "key \<in> fst ` set (filter (\<lambda>e. \<not> startsWith (fst e) p) (searchParams location))"
    by (auto simp: usp_has_def)
  show ?thesis
  proof (cases params)
    case None
    with kept show ?thesis
      by (simp add: getUrlWithParams_None usp_has_def)
  next
    case (Some ps)
    from kept have "key \<in> fst ` set (foldl (\<lambda>acc (key, val). usp_set acc key val)
        (filter (\<lambda>e. \<not> startsWith (fst e) p) (searchParams location)) ps)"
      unfolding keys_foldl_usp_set by (rule UnI1)
    with Some show ?thesis
      by (simp add: getUrlWithParams_Some usp_has_def)
  qed
qed

lemma usp_getAll_getUrlWithParams:
  assumes "\<not> startsWith key p" and "\<forall>ps. params = Some ps \<longrightarrow> key \<notin> set (usp_keys ps)"
  shows "usp_getAll (searchParams (getUrlWithParams location p params)) key =
         usp_getAll (searchParams location) key"
proof (cases params)
  case None
  with assms(1) show ?thesis
    by (simp add: getUrlWithParams_None usp_getAll_strip_other)
next
  case (Some ps)
  with assms(2) have "key \<notin> fst ` set ps"
    by (simp add: usp_keys_def)
  then have "usp_getAll (foldl (\<lambda>acc (key, val). usp_set acc key val)
        (filter (\<lambda>e. \<not> startsWith (fst e) p) (searchParams location)) ps) key =
      usp_getAll (filter (\<lambda>e. \<not> startsWith (fst e) p) (searchParams location)) key"
    by (rule getAll_foldl_usp_set_other)
  with Some assms(1) show ?thesis
    by (simp add: getUrlWithParams_Some usp_getAll_strip_other)
qed

lemma usp_getAll_usp_delete_same: "usp_getAll (usp_delete ps name) name = []"
  by (induction ps) (auto simp: usp_getAll_def usp_delete_def)

lemma usp_getAll_usp_set_same: "usp_getAll (usp_set ps name val) name = [val]"
proof (induction ps)
  case Nil
  then show ?case by (simp add: usp_getAll_def)
next
  case (Cons e ps)
  show ?case
  proof (cases "fst e = name")
    case True
    have "usp_getAll (usp_delete ps name) name = []"
      by (rule usp_getAll_usp_delete_same)
    with True show ?thesis by (simp add: usp_getAll_def)
  next
    case False
    with Cons show ?thesis by (simp add: usp_getAll_def)
  qed
qed

lemma getAll_foldl_usp_set_supplied:
  "map_of (rev ps) k = Some v \<Longrightarrow>
   usp_getAll (foldl (\<lambda>acc (key, val). usp_set acc key val) base ps) k = [v]"
proof (induction ps rule: rev_induct)
  case Nil
  then show ?case by simp
next
  case (snoc e ps)
  obtain key val where e: "e = (key, val)" by (cases e)
  let ?before = "foldl (\<lambda>acc (key, val). usp_set acc key val) base ps"
  show ?case
  proof (cases "key = k")
    case True
    with snoc.prems have "val = v" by (simp add: e)
    moreover have "usp_getAll (usp_set ?before k val) k = [val]"
      by (rule usp_getAll_usp_set_same)
    ultimately show ?thesis using True by (simp add: e)
  next
    case False
    with snoc.prems have "map_of (rev ps) k = Some v" by (simp add: e)
    then have "usp_getAll ?before k = [v]" by (rule snoc.IH)
    moreover from False have "usp_getAll (usp_set ?before key val) k = usp_getAll ?before k"
      by (simp add: usp_getAll_usp_set_other)
    ultimately show ?thesis by (simp add: e)
  qed
qed

lemma usp_getAll_getUrlWithParams_supplied:
  assumes "map_of (rev ps) key = Some v"
  shows "usp_getAll (searchParams (getUrlWithParams location p (Some ps))) key = [v]"
proof -
  from assms have "usp_getAll (foldl (\<lambda>acc (key, val). usp_set acc key val)
        (filter (\<lambda>e. \<not> startsWith (fst e) p) (searchParams location)) ps) key = [v]"
    by (rule getAll_foldl_usp_set_supplied)
  then show ?thesis by (simp add: getUrlWithParams_Some)
qed

text \<open>
  C7 as stated has \<^verbatim>\<open>getUrlWithParams\<close> never remove a parameter whose name does not start
  with the prefix. When the supplied set itself holds such a name, \<^verbatim>\<open>set\<close> overwrites the
  first pair of that name and removes its other pairs: on \<^verbatim>\<open>?utm=a&page=2&utm=b&ep-x=1\<close>
  with prefix \<^verbatim>\<open>ep-\<close> and the set \<^verbatim>\<open>utm=z&ep-y=2\<close> the result is
  \<^verbatim>\<open>?utm=z&page=2&ep-y=2\<close>, and the pair \<^verbatim>\<open>utm=b\<close> is gone.
\<close>

theorem getUrlWithParams_removal_counterexample:
  "\<not> startsWith ''utm'' ''ep-'' \<and>
   (''utm'', ''b'') \<in> set (searchParams
      \<lparr>origin_path = ''https://example.com/'',
       searchParams = [(''utm'', ''a''), (''page'', ''2''), (''utm'', ''b''), (''ep-x'', ''1'')],
       hash = []\<rparr>) \<and>
   getUrlWithParams
     \<lparr>origin_path = ''https://example.com/'',
      searchParams = [(''utm'', ''a''), (''page'', ''2''), (''utm'', ''b''), (''ep-x'', ''1'')],
      hash = []\<rparr>
     ''ep-'' (Some [(''utm'', ''z''), (''ep-y'', ''2'')]) =
     \<lparr>origin_path = ''https://example.com/'',
      searchParams = [(''utm'', ''z''), (''page'', ''2''), (''ep-y'', ''2'')],
      hash = []\<rparr> \<and>
   (''utm'', ''b'') \<notin> set (searchParams
      (getUrlWithParams
         \<lparr>origin_path = ''https://example.com/'',
          searchParams = [(''utm'', ''a''), (''page'', ''2''), (''utm'', ''b''), (''ep-x'', ''1'')],
          hash = []\<rparr>
         ''ep-'' (Some [(''utm'', ''z''), (''ep-y'', ''2'')]))) \<and>
   usp_getAll (searchParams
      (getUrlWithParams
         \<lparr>origin_path = ''https://example.com/'',
          searchParams = [(''utm'', ''a''), (''page'', ''2''), (''utm'', ''b''), (''ep-x'', ''1'')],
          hash = []\<rparr>
         ''ep-'' (Some [(''utm'', ''z''), (''ep-y'', ''2'')]))) ''utm'' = [''z'']"
  by (simp add: getUrlWithParams_def usp_keys_def delete_step_def set_step_def
      startsWith_def usp_delete_def usp_getAll_def)

text \<open>
  C7, amended. Deserialization reads the parameter set only through \<^verbatim>\<open>get\<close> on
  \<open>prefix + arg\<close> for schema keys \<open>arg\<close>: two parameter sets that agree there give the same
  arguments, whatever else they hold; and it writes only schema keys. Serialization reads
  \<open>args\<close> only at schema keys and writes only names \<open>prefix + arg\<close> for schema keys
  \<open>arg\<close>. The URL rewrite never removes the name of a parameter that does not start with
  the prefix: the name stays present. When the supplied set does not hold that name, all
  its pairs stay, in order. When the supplied set holds a name, whether under the prefix
  or not, the result has exactly one pair of that name, carrying the last value supplied
  for it; the other pairs of that name are removed.
\<close>

theorem prefix_isolation:
  "((\<forall>arg \<in> fst ` set schema.
       usp_get urlParams' (prefix_arg pfx @ arg) = usp_get urlParams (prefix_arg pfx @ arg)) \<longrightarrow>
     getArgsFromUrlParams sanitizeArg urlParams' schema pfx useDefaults =
     getArgsFromUrlParams sanitizeArg urlParams schema pfx useDefaults) \<and>
   fst ` set (getArgsFromUrlParams sanitizeArg urlParams schema pfx useDefaults)
     \<subseteq> fst ` set schema \<and>
   ((\<forall>arg \<in> fst ` set schema. obj_get args' arg = obj_get args arg) \<longrightarrow>
     getUrlParamsFromArgs sanitizeParam args' schema pfx =
     getUrlParamsFromArgs sanitizeParam args schema pfx) \<and>
   set (usp_keys (getUrlParamsFromArgs sanitizeParam args schema pfx))
     \<subseteq> (\<lambda>arg. prefix_arg pfx @ arg) ` fst ` set schema \<and>
   (\<not> startsWith key paramPrefix \<and> usp_has (searchParams location) key \<longrightarrow>
     usp_has (searchParams (getUrlWithParams location paramPrefix params)) key) \<and>
   (\<not> startsWith key paramPrefix \<and> (\<forall>ps. params = Some ps \<longrightarrow> key \<notin> set (usp_keys ps)) \<longrightarrow>
     usp_getAll (searchParams (getUrlWithParams location paramPrefix params)) key =
     usp_getAll (searchParams location) key) \<and>
   (\<forall>ps v. params = Some ps \<and> map_of (rev ps) key = Some v \<longrightarrow>
     usp_getAll (searchParams (getUrlWithParams location paramPrefix params)) key = [v])"
proof (intro conjI impI allI)
  assume "\<forall>arg \<in> fst ` set schema.
       usp_get urlParams' (prefix_arg pfx @ arg) = usp_get urlParams (prefix_arg pfx @ arg)"
  then show "getArgsFromUrlParams sanitizeArg urlParams' schema pfx useDefaults =
     getArgsFromUrlParams sanitizeArg urlParams schema pfx useDefaults"
    unfolding getArgsFromUrlParams_def by (rule arg_step_reads_schema_params)
next
  from foldl_arg_step_keys [of sanitizeArg urlParams "prefix_arg pfx" "useDefaults_arg useDefaults" "[]" schema]
  show "fst ` set (getArgsFromUrlParams sanitizeArg urlParams schema pfx useDefaults)
     \<subseteq> fst ` set schema"
    by (simp add: getArgsFromUrlParams_def)
next
  assume "\<forall>arg \<in> fst ` set schema. obj_get args' arg = obj_get args arg"
  then show "getUrlParamsFromArgs sanitizeParam args' schema pfx =
     getUrlParamsFromArgs sanitizeParam args schema pfx"
    unfolding getUrlParamsFromArgs_def by (rule param_step_reads_schema_args)
next
  from foldl_param_step_keys [of sanitizeParam args "prefix_arg pfx" "[]" schema]
  show "set (usp_keys (getUrlParamsFromArgs sanitizeParam args schema pfx))
     \<subseteq> (\<lambda>arg. prefix_arg pfx @ arg) ` fst ` set schema"
    by (simp add: getUrlParamsFromArgs_def usp_keys_def)
next
  assume "\<not> startsWith key paramPrefix \<and> usp_has (searchParams location) key"
  then show "usp_has (searchParams (getUrlWithParams location paramPrefix params)) key"
    by (simp add: usp_has_getUrlWithParams)
next
  assume "\<not> startsWith key paramPrefix \<and> (\<forall>ps. params = Some ps \<longrightarrow> key \<notin> set (usp_keys ps))"
  then show "usp_getAll (searchParams (getUrlWithParams location paramPrefix params)) key =
     usp_getAll (searchParams location) key"
    by (simp add: usp_getAll_getUrlWithParams)
next
  fix ps v assume "params = Some ps \<and> map_of (rev ps) key = Some v"
  then show "usp_getAll (searchParams (getUrlWithParams location paramPrefix params)) key = [v]"
    by (simp add: usp_getAll_getUrlWithParams_supplied)
qed

theorem prefix_isolation_witness:
  "getArgsFromUrlParams example_sanitizeArg
     [(''page'', ''2''), (''ep-search'', ''chairs''), (''ep-unknown'', ''x''), (''search'', ''sofa'')]
     example_schema (Some ''ep-'') (Some False) =
   getArgsFromUrlParams example_sanitizeArg [(''ep-search'', ''chairs'')]
     example_schema (Some ''ep-'') (Some False) \<and>
   getUrlParamsFromArgs example_sanitizeParam example_args example_schema (Some ''ep-'') =
   getUrlParamsFromArgs example_sanitizeParam
     [(''order'', Defined ''asc''), (''search'', Defined ''chairs''), (''per_page'', Defined ''6'')]
     example_schema (Some ''ep-'') \<and>
   \<not> startsWith ''utm'' ''ep-'' \<and>
   usp_has (searchParams example_location) ''utm'' \<and>
   usp_has (searchParams (getUrlWithParams example_location ''ep-''
              (Some [(''ep-search'', ''chairs'')]))) ''utm'' \<and>
   usp_getAll (searchParams (getUrlWithParams example_location ''ep-''
                 (Some [(''ep-search'', ''chairs'')]))) ''utm'' = [''a'', ''b''] \<and>
   map_of (rev [(''utm'', ''y''), (''ep-search'', ''chairs''), (''utm'', ''z'')]) ''utm'' = Some ''z'' \<and>
   usp_has (searchParams (getUrlWithParams example_location ''ep-''
              (Some [(''utm'', ''y''), (''ep-search'', ''chairs''), (''utm'', ''z'')]))) ''utm'' \<and>
   usp_getAll (searchParams (getUrlWithParams example_location ''ep-''
                 (Some [(''utm'', ''y''), (''ep-search'', ''chairs''), (''utm'', ''z'')]))) ''utm''
     = [''z'']"
proof -
  let ?noisy = "[(''page'', ''2''), (''ep-search'', ''chairs''), (''ep-unknown'', ''x''),
                 (''search'', ''sofa'')]"
  let ?clean = "[(''ep-search'', ''chairs'')]"
  let ?args' = "[(''order'', Defined ''asc''), (''search'', Defined ''chairs''),
                 (''per_page'', Defined ''6'')]"
  let ?rewriting = "[(''utm'', ''y''), (''ep-search'', ''chairs''), (''utm'', ''z'')]"
  note c = prefix_isolation [of example_schema ?noisy "Some ''ep-''" ?clean example_sanitizeArg
      "Some False" example_args ?args' example_sanitizeParam "''utm''" "''ep-''" example_location
      "Some ?clean"]
  note d = prefix_isolation [of example_schema ?noisy "Some ''ep-''" ?clean example_sanitizeArg
      "Some False" example_args ?args' example_sanitizeParam "''utm''" "''ep-''" example_location
      "Some ?rewriting"]
  have params_agree: "\<forall>arg \<in> fst ` set example_schema.
      usp_get ?noisy (prefix_arg (Some ''ep-'') @ arg) = usp_get ?clean (prefix_arg (Some ''ep-'') @ arg)"
    by (simp add: example_schema_def usp_get_def prefix_arg_def)
  have args_agree: "\<forall>arg \<in> fst ` set example_schema. obj_get example_args arg = obj_get ?args' arg"
    by (simp add: example_schema_def example_args_def obj_get_def)
  have outside: "\<not> startsWith ''utm'' ''ep-''"
    by (simp add: startsWith_def)
  have present: "usp_has (searchParams example_location) ''utm''"
    by (simp add: usp_has_def example_location_def)
  have untouched: "\<forall>ps. Some ?clean = Some ps \<longrightarrow> ''utm'' \<notin> set (usp_keys ps)"
    by (simp add: usp_keys_def)
  have supplied: "map_of (rev ?rewriting) ''utm'' = Some ''z''"
    by simp
  from c params_agree
  have r1: "getArgsFromUrlParams example_sanitizeArg ?noisy example_schema (Some ''ep-'') (Some False) =
      getArgsFromUrlParams example_sanitizeArg ?clean example_schema (Some ''ep-'') (Some False)"
    by blast
  from c args_agree
  have r2: "getUrlParamsFromArgs example_sanitizeParam example_args example_schema (Some ''ep-'') =
      getUrlParamsFromArgs example_sanitizeParam ?args' example_schema (Some ''ep-'')"
    by blast
  from c outside present
  have r3: "usp_has (searchParams (getUrlWithParams example_location ''ep-'' (Some ?clean))) ''utm''"
    by blast
  from c outside untouched
  have "usp_getAll (searchParams (getUrlWithParams example_location ''ep-'' (Some ?clean))) ''utm'' =
      usp_getAll (searchParams example_location) ''utm''"
    by blast
  then have r4: "usp_getAll (searchParams (getUrlWithParams example_location ''ep-'' (Some ?clean))) ''utm'' =
      [''a'', ''b'']"
    by (simp add: usp_getAll_def example_location_def)
  from d outside present
  have r5: "usp_has (searchParams (getUrlWithParams example_location ''ep-'' (Some ?rewriting))) ''utm''"
    by blast
  from d supplied
  have r6: "usp_getAll (searchParams (getUrlWithParams example_location ''ep-'' (Some ?rewriting))) ''utm'' =
      [''z'']"
    by blast
  from r1 r2 outside present r3 r4 supplied r5 r6 show ?thesis by blast
qed

section \<open>Price formatting\<close>

lemma map_of_spread: "map_of (spread obj props) = map_of obj ++ map_of (rev props)"
proof -
  have "map_of (foldl (\<lambda>acc (k, v). AList.update k v acc) obj props) =
      map_of obj ++ map_of (rev props)"
  proof (induction props arbitrary: obj)
    case Nil
    then show ?case by simp
  next
    case (Cons e props)
    obtain k v where e: "e = (k, v)" by (cases e)
    have "map_of (foldl (\<lambda>acc (k, v). AList.update k v acc) (AList.update k v obj) props) =
        map_of (AList.update k v obj) ++ map_of (rev props)"
      by (rule Cons.IH)
    also have "\<dots> = (map_of obj ++ [k \<mapsto> v]) ++ map_of (rev props)"
      by (simp add: update_conv')
    also have "\<dots> = map_of obj ++ map_of (rev (e # props))"
      by (simp add: e)
    finally show ?case by (simp add: e)
  qed
  then show ?thesis by (simp add: spread_def)
qed

text \<open>
  C9 as stated lets the caller override the locale through the options, and has the
  number formatted as currency for every options object. With the runtime locale
  \<^verbatim>\<open>en-US\<close> and the options \<^verbatim>\<open>{locale: 'de-DE', style: 'decimal'}\<close> the formatter is
  constructed with the locale \<^verbatim>\<open>en-US\<close> and the style \<^verbatim>\<open>decimal\<close>.
\<close>

theorem formatPrice_locale_counterexample:
  "formatPrice reporting_format ''en-US'' 5 [(''locale'', ''de-DE''), (''style'', ''decimal'')]
     = ''en-US decimal''"
  by (simp add: formatPrice_def reporting_format_def spread_def)

text \<open>
  C9, amended. \<^verbatim>\<open>formatPrice\<close> formats the number with a formatter constructed for the
  runtime's active locale, always: the options argument is the second argument of the
  constructor and cannot change the first. The options the formatter receives are the
  defaults \<^verbatim>\<open>style: 'currency'\<close> and \<^verbatim>\<open>currencyDisplay: 'narrowSymbol'\<close> with the caller's
  options merged over them, so the number is formatted as currency unless the caller's
  options give another \<^verbatim>\<open>style\<close>.
\<close>

theorem formatPrice_call:
  "formatPrice numberFormat navigator_language number options =
     numberFormat navigator_language
       (spread [(''style'', ''currency''), (''currencyDisplay'', ''narrowSymbol'')] options)
       number \<and>
   map_of (spread [(''style'', ''currency''), (''currencyDisplay'', ''narrowSymbol'')] options) =
     [''style'' \<mapsto> ''currency'', ''currencyDisplay'' \<mapsto> ''narrowSymbol'']
       ++ map_of (rev options) \<and>
   formatPrice reporting_format navigator_language count options =
     navigator_language @ '' '' @
       (case map_of (rev options) ''style'' of None \<Rightarrow> ''currency'' | Some style \<Rightarrow> style)"
proof (intro conjI)
  show "formatPrice numberFormat navigator_language number options =
     numberFormat navigator_language
       (spread [(''style'', ''currency''), (''currencyDisplay'', ''narrowSymbol'')] options)
       number"
    by (simp add: formatPrice_def)
  have "map_of (spread [(''style'', ''currency''), (''currencyDisplay'', ''narrowSymbol'')] options) =
      map_of [(''style'', ''currency''), (''currencyDisplay'', ''narrowSymbol'')]
        ++ map_of (rev options)"
    by (rule map_of_spread)
  also have "map_of [(''style'', ''currency''), (''currencyDisplay'', ''narrowSymbol'')] =
      [''style'' \<mapsto> ''currency'', ''currencyDisplay'' \<mapsto> ''narrowSymbol'']"
    by (auto simp: fun_eq_iff)
  finally show merged: "map_of (spread [(''style'', ''currency''), (''currencyDisplay'', ''narrowSymbol'')] options) =
     [''style'' \<mapsto> ''currency'', ''currencyDisplay'' \<mapsto> ''narrowSymbol'']
       ++ map_of (rev options)" .
  have "map_of (spread [(''style'', ''currency''), (''currencyDisplay'', ''narrowSymbol'')] options) ''style'' =
      (case map_of (rev options) ''style'' of None \<Rightarrow> Some ''currency'' | Some style \<Rightarrow> Some style)"
    unfolding merged by (simp add: map_add_def split: option.splits)
  then show "formatPrice reporting_format navigator_language count options =
     navigator_language @ '' '' @
       (case map_of (rev options) ''style'' of None \<Rightarrow> ''currency'' | Some style \<Rightarrow> style)"
    by (simp add: formatPrice_def reporting_format_def split: option.splits)
qed

end
